theory Spec2Isabelle
  imports Main "HOL-Library.AList"
begin

section \<open>Values, errors and the external world\<close>

text \<open>
  The watcher (\<^verbatim>\<open>src/index.js\<close>) keeps three pieces of module state: the token cache
  (\<^verbatim>\<open>cachedToken\<close>, \<^verbatim>\<open>tokenExpiry\<close>) and the map \<^verbatim>\<open>debounceTimers\<close>. Everything else
  is the outside world: the clock, the HTTP endpoints, the file system and the timers
  of the runtime. The world is made explicit here: a record of answers, indexed by how
  many calls of the kind came before, and a clock that the answers advance.
\<close>

text \<open>
  The value of \<^verbatim>\<open>cachedToken\<close>: \<^verbatim>\<open>null\<close> initially, afterwards whatever
  \<^verbatim>\<open>tokenData.access_token\<close> was: a string, \<^verbatim>\<open>null\<close>, or \<^verbatim>\<open>undefined\<close> when the
  response has no such field. (Tokens of other JSON types are not modelled.)
\<close>

datatype js_value = Undefined | Null | Str string

text \<open>JavaScript truthiness, as used by \<^verbatim>\<open>cachedToken && ...\<close>.\<close>

fun truthy :: "js_value \<Rightarrow> bool" where
  "truthy Undefined = False"
| "truthy Null = False"
| "truthy (Str s) = (s \<noteq> [])"

text \<open>String conversion in a template literal.\<close>

fun to_string :: "js_value \<Rightarrow> string" where
  "to_string Undefined = ''undefined''"
| "to_string Null = ''null''"
| "to_string (Str s) = s"

text \<open>A number in a template literal: its decimal digits.\<close>

fun decimal :: "nat \<Rightarrow> string" where
  "decimal n =
     (if n < 10 then [''0123456789'' ! n]
      else decimal (n div 10) @ [''0123456789'' ! (n mod 10)])"

declare decimal.simps [simp del]

datatype js_error = Error string | TypeError string

fun message :: "js_error \<Rightarrow> string" where
  "message (Error m) = m"
| "message (TypeError m) = m"

text \<open>
  A parsed JSON body. Only two things are done with it: reading the property
  \<^verbatim>\<open>access_token\<close> and printing it. \<open>JsonNull\<close> is the body \<^verbatim>\<open>null\<close>, on which a
  property read throws; every other body is its list of properties (empty for a number,
  a string or an array, which have no \<^verbatim>\<open>access_token\<close> either).
\<close>

datatype json = JsonNull | JsonObject "(string \<times> js_value) list"

fun get_property :: "json \<Rightarrow> string \<Rightarrow> js_error + js_value" where
  "get_property JsonNull k =
     Inl (TypeError (''Cannot read properties of null (reading '' @ [CHR 0x27] @ k @
            [CHR 0x27] @ '')''))"
| "get_property (JsonObject kvs) k = (case map_of kvs k of None \<Rightarrow> Inr Undefined | Some v \<Rightarrow> Inr v)"

text \<open>
  An HTTP response as node-fetch hands it over. \<open>text_body\<close> and \<open>json_body\<close> are what
  \<^verbatim>\<open>await response.text()\<close> and \<^verbatim>\<open>await response.json()\<close> give: a value, or the error
  they reject with.
\<close>

record response =
  status :: nat
  statusText :: string
  text_body :: "js_error + string"
  json_body :: "js_error + json"

text \<open>\<^verbatim>\<open>response.ok\<close> of node-fetch: the status is in the range 200-299.\<close>

definition ok :: "response \<Rightarrow> bool" where
  "ok r = (200 \<le> status r \<and> status r < 300)"

text \<open>
  A number as \<^verbatim>\<open>parseInt\<close> gives it: an integer, or \<^verbatim>\<open>NaN\<close> for a text that is no
  number. \<^verbatim>\<open>config.debounceMs\<close> is such a number and is not checked anywhere.
\<close>

datatype js_number = NaN | Num int

record config =
  apiBaseUrl :: string
  clientId :: string
  clientSecret :: string
  apiKey :: string
  instanceId :: string
  debounceMs :: js_number

text \<open>
  One HTTP exchange: the milliseconds that pass until the response and its body have
  arrived, and the response, or the error \<^verbatim>\<open>fetch\<close> rejects with.
\<close>

type_synonym exchange = "nat \<times> (js_error + response)"

text \<open>
  The world. \<open>token_fetch w n\<close> answers the call to the token endpoint that comes after
  \<open>n\<close> earlier ones, \<open>upload_fetch w n\<close> the same for the upload endpoint;
  \<open>createReadStream w k p\<close> and \<open>statSync w k p\<close> are the file system as the attempt
  after \<open>k\<close> earlier attempts finds it (\<open>statSync\<close> gives the size in bytes).
\<close>

record world =
  token_fetch :: "nat \<Rightarrow> exchange"
  upload_fetch :: "nat \<Rightarrow> exchange"
  createReadStream :: "nat \<Rightarrow> string \<Rightarrow> js_error + string"
  statSync :: "nat \<Rightarrow> string \<Rightarrow> js_error + nat"

text \<open>The multipart body: one part, as \<^verbatim>\<open>formData.append('file', fileStream, {...})\<close> builds it.\<close>

record form_data =
  field :: string
  stream :: string
  filename :: string
  contentType :: string
  knownLength :: nat

text \<open>What is handed to \<^verbatim>\<open>fetch\<close>: the URL and the options.\<close>

record 'b request =
  url :: string
  http_method :: string
  headers :: "(string \<times> string) list"
  body :: 'b

text \<open>The lines written to the console, by what they report.\<close>

datatype diag =
    UsingCachedToken
  | GeneratingToken
  | TokenGenerated
  | ErrorGeneratingToken string
  | Uploading string
  | UploadSucceeded string json
  | UploadFailed string nat string string
  | RetryingAfter401
  | ErrorUploading string string

text \<open>
  The state threaded through the upload path: the two cache variables of the module, the
  clock read by \<^verbatim>\<open>Date.now()\<close> (milliseconds), and what has been observed so far: the
  requests sent to the token endpoint and to the upload endpoint, oldest first, the
  attempts started, the times the cache was cleared, and the console.
\<close>

record sys =
  cachedToken :: js_value
  tokenExpiry :: "nat option"
  now :: nat
  token_requests :: "json request list"
  upload_requests :: "form_data request list"
  attempts :: nat
  invalidations :: nat
  console :: "diag list"

definition log :: "diag \<Rightarrow> sys \<Rightarrow> sys" where
  "log d s = s\<lparr>console := console s @ [d]\<rparr>"

definition token_calls :: "sys \<Rightarrow> nat" where
  "token_calls s = length (token_requests s)"

definition upload_calls :: "sys \<Rightarrow> nat" where
  "upload_calls s = length (upload_requests s)"

definition initial :: "nat \<Rightarrow> sys" where
  "initial t = \<lparr>cachedToken = Null, tokenExpiry = None, now = t, token_requests = [],
     upload_requests = [], attempts = 0, invalidations = 0, console = []\<rparr>"

section \<open>The token cache\<close>

text \<open>
  The test at the head of \<^verbatim>\<open>generateToken\<close>:
  \<^verbatim>\<open>cachedToken && tokenExpiry && Date.now() < tokenExpiry\<close>.
\<close>

definition cache_valid :: "sys \<Rightarrow> bool" where
  "cache_valid s =
     (truthy (cachedToken s) \<and>
      (case tokenExpiry s of None \<Rightarrow> False | Some e \<Rightarrow> e \<noteq> 0 \<and> now s < e))"

text \<open>
  The request for a token: \<^verbatim>\<open>POST {apiBaseUrl}/api/v1/tokens\<close> with the API key as
  its JSON body.
\<close>

definition token_request :: "config \<Rightarrow> json request" where
  "token_request cfg =
     \<lparr>url = apiBaseUrl cfg @ ''/api/v1/tokens'',
      http_method = ''POST'',
      headers = [(''X-IBM-Instance-Id'', instanceId cfg),
                 (''Content-Type'', ''application/json''),
                 (''Accept'', ''application/json''),
                 (''X-IBM-Client-Id'', clientId cfg),
                 (''X-IBM-Client-Secret'', clientSecret cfg)],
      body = JsonObject [(''apiKey'', Str (apiKey cfg))]\<rparr>"

text \<open>
  The \<^verbatim>\<open>try\<close> block of \<^verbatim>\<open>generateToken\<close> after the cache test: the request is sent, the
  clock moves by the duration of the exchange, and then either an error is thrown
  (\<open>Inl\<close>) or the token and its expiry are stored, 50 minutes from the clock's reading.
\<close>

definition fetch_token :: "config \<Rightarrow> world \<Rightarrow> sys \<Rightarrow> (js_error + js_value) \<times> sys" where
  "fetch_token cfg w s =
     (let s1 = log GeneratingToken s;
          (d, res) = token_fetch w (token_calls s1);
          s2 = s1\<lparr>token_requests := token_requests s1 @ [token_request cfg], now := now s1 + d\<rparr>
      in case res of
           Inl e \<Rightarrow> (Inl e, s2)
         | Inr r \<Rightarrow>
             if \<not> ok r then
               (case text_body r of
                  Inl e \<Rightarrow> (Inl e, s2)
                | Inr errorText \<Rightarrow>
                    (Inl (Error (''Token generation failed: '' @ decimal (status r) @ '' '' @
                            statusText r @ '' - '' @ errorText)), s2))
             else
               (case json_body r of
                  Inl e \<Rightarrow> (Inl e, s2)
                | Inr tokenData \<Rightarrow>
                    (case get_property tokenData ''access_token'' of
                       Inl e \<Rightarrow> (Inl e, s2)
                     | Inr tok \<Rightarrow>
                         let s3 = s2\<lparr>cachedToken := tok\<rparr>;
                             s4 = s3\<lparr>tokenExpiry := Some (now s3 + 50 * 60 * 1000)\<rparr>
                         in (Inr (cachedToken s4), log TokenGenerated s4))))"

text \<open>
  \<^verbatim>\<open>generateToken\<close>: the cached token when the test passes, otherwise the \<^verbatim>\<open>try\<close> block,
  whose \<^verbatim>\<open>catch\<close> logs the error and throws it again.
\<close>

definition generateToken :: "config \<Rightarrow> world \<Rightarrow> sys \<Rightarrow> (js_error + js_value) \<times> sys" where
  "generateToken cfg w s =
     (if cache_valid s then (Inr (cachedToken s), log UsingCachedToken s)
      else case fetch_token cfg w s of
             (Inl e, s') \<Rightarrow> (Inl e, log (ErrorGeneratingToken (message e)) s')
           | (Inr tok, s') \<Rightarrow> (Inr tok, s'))"

text \<open>
  Clearing the cache, as the 401 branch of \<^verbatim>\<open>uploadBarFile\<close> does
  (\<^verbatim>\<open>cachedToken = null; tokenExpiry = null\<close>).
\<close>

definition invalidate :: "sys \<Rightarrow> sys" where
  "invalidate s = s\<lparr>cachedToken := Null, tokenExpiry := None, invalidations := invalidations s + 1\<rparr>"

text \<open>
  Reading the cache from outside: a token is present when \<^verbatim>\<open>cachedToken\<close> holds a
  value, and its expiry is in the future when \<^verbatim>\<open>tokenExpiry\<close> is set and the clock has
  not reached it.
\<close>

definition token_present :: "sys \<Rightarrow> bool" where
  "token_present s = (cachedToken s \<noteq> Null \<and> cachedToken s \<noteq> Undefined)"

definition expiry_in_future :: "sys \<Rightarrow> bool" where
  "expiry_in_future s = (case tokenExpiry s of None \<Rightarrow> False | Some e \<Rightarrow> now s < e)"

text \<open>Time passing between two operations.\<close>

definition tick :: "nat \<Rightarrow> sys \<Rightarrow> sys" where
  "tick d s = s\<lparr>now := now s + d\<rparr>"

section \<open>The upload\<close>

text \<open>
  \<^verbatim>\<open>path.basename\<close> of Node for POSIX paths: trailing slashes are dropped, and what
  follows the last remaining slash is the name.
\<close>

definition basename :: "string \<Rightarrow> string" where
  "basename p =
     rev (takeWhile (\<lambda>c. c \<noteq> CHR ''/'') (dropWhile (\<lambda>c. c = CHR ''/'') (rev p)))"

text \<open>
  The request that \<^verbatim>\<open>uploadBarFile\<close> hands to \<^verbatim>\<open>fetch\<close>: the URL built from the file
  name (with \<^verbatim>\<open>.bar\<close> appended to it), the method, the four headers, and the form with
  the file as its one part.
\<close>

definition upload_request :: "config \<Rightarrow> string \<Rightarrow> js_value \<Rightarrow> string \<Rightarrow> nat \<Rightarrow> form_data request" where
  "upload_request cfg fileName token fileStream fileSize =
     \<lparr>url = apiBaseUrl cfg @ ''/api/v1/bar-files/'' @ fileName @ ''.bar'',
      http_method = ''PUT'',
      headers = [(''X-IBM-Instance-Id'', instanceId cfg),
                 (''X-IBM-Client-Id'', clientId cfg),
                 (''authorization'', ''Bearer '' @ to_string token),
                 (''Content-Type'', ''application/octet-stream'')],
      body = \<lparr>field = ''file'', stream = fileStream, filename = fileName,
               contentType = ''application/octet-stream'', knownLength = fileSize\<rparr>\<rparr>"

text \<open>
  How one pass through the body of \<^verbatim>\<open>uploadBarFile\<close> ends: it falls off the end
  (\<open>Finished\<close>), or it reaches \<^verbatim>\<open>return uploadBarFile(filePath)\<close> (\<open>Retry\<close>).
\<close>

datatype completion = Finished | Retry

definition begin_attempt :: "string \<Rightarrow> sys \<Rightarrow> sys" where
  "begin_attempt fileName s = log (Uploading fileName) (s\<lparr>attempts := attempts s + 1\<rparr>)"

text \<open>
  The \<^verbatim>\<open>try\<close> block of \<^verbatim>\<open>uploadBarFile\<close>. Every statement that can throw is a case
  with an \<open>Inl\<close> branch. The 401 branch tests the status and the truthiness of
  \<^verbatim>\<open>cachedToken\<close>, clears the cache and asks for the function to be called again.
  (When \<^verbatim>\<open>statSync\<close> throws, the stream made just before it is left unread; what
  becomes of it is an event of the process, \<open>StreamError\<close> below.)
\<close>

definition upload_body :: "config \<Rightarrow> world \<Rightarrow> string \<Rightarrow> sys \<Rightarrow> (js_error + completion) \<times> sys" where
  "upload_body cfg w filePath s =
     (let fileName = basename filePath in
      case generateToken cfg w (begin_attempt fileName s) of
        (Inl e, s1) \<Rightarrow> (Inl e, s1)
      | (Inr token, s1) \<Rightarrow>
          (case createReadStream w (attempts s) filePath of
             Inl e \<Rightarrow> (Inl e, s1)
           | Inr fileStream \<Rightarrow>
               (case statSync w (attempts s) filePath of
                  Inl e \<Rightarrow> (Inl e, s1)
                | Inr fileSize \<Rightarrow>
                    let (d, res) = upload_fetch w (upload_calls s1);
                        s2 = s1\<lparr>upload_requests := upload_requests s1 @
                                  [upload_request cfg fileName token fileStream fileSize],
                                now := now s1 + d\<rparr>
                    in (case res of
                          Inl e \<Rightarrow> (Inl e, s2)
                        | Inr r \<Rightarrow>
                            if ok r then
                              (case json_body r of
                                 Inl e \<Rightarrow> (Inl e, s2)
                               | Inr result \<Rightarrow>
                                   (Inr Finished, log (UploadSucceeded fileName result) s2))
                            else
                              (case text_body r of
                                 Inl e \<Rightarrow> (Inl e, s2)
                               | Inr errorText \<Rightarrow>
                                   let s3 = log (UploadFailed fileName (status r) (statusText r)
                                                   errorText) s2
                                   in if status r = 401 \<and> truthy (cachedToken s3)
                                      then (Inr Retry, invalidate (log RetryingAfter401 s3))
                                      else (Inr Finished, s3))))))"

text \<open>The \<^verbatim>\<open>try\<close> block with its \<^verbatim>\<open>catch\<close>, which logs the error and goes on.\<close>

definition upload_attempt :: "config \<Rightarrow> world \<Rightarrow> string \<Rightarrow> sys \<Rightarrow> completion \<times> sys" where
  "upload_attempt cfg w filePath s =
     (case upload_body cfg w filePath s of
        (Inl e, s') \<Rightarrow> (Finished, log (ErrorUploading (basename filePath) (message e)) s')
      | (Inr c, s') \<Rightarrow> (c, s'))"

text \<open>
  \<^verbatim>\<open>uploadBarFile\<close>: the body, and in the 401 branch the function again. Nothing bounds
  the recursion, so the function is partial: \<open>None\<close> is a run that never returns.
\<close>

partial_function (option) uploadBarFile :: "config \<Rightarrow> world \<Rightarrow> string \<Rightarrow> sys \<Rightarrow> sys option" where
  "uploadBarFile cfg w filePath s =
     (case upload_attempt cfg w filePath s of
        (Retry, s') \<Rightarrow> uploadBarFile cfg w filePath s'
      | (Finished, s') \<Rightarrow> Some s')"

declare uploadBarFile.simps [code]

text \<open>
  What can happen to the cache: time passes, \<^verbatim>\<open>generateToken\<close> runs, the cache is
  cleared, the body of \<^verbatim>\<open>uploadBarFile\<close> runs; each against any world. The states of
  the cache that can arise are those that a list of such actions leads to from the
  empty cache the module starts with: \<open>run acts (initial t)\<close>.
\<close>

datatype action =
    Wait nat
  | GenerateToken config world
  | Invalidate
  | UploadAttempt config world string

fun perform :: "action \<Rightarrow> sys \<Rightarrow> sys" where
  "perform (Wait d) s = tick d s"
| "perform (GenerateToken cfg w) s = snd (generateToken cfg w s)"
| "perform Invalidate s = invalidate s"
| "perform (UploadAttempt cfg w filePath) s = snd (upload_attempt cfg w filePath s)"

definition run :: "action list \<Rightarrow> sys \<Rightarrow> sys" where
  "run acts s = fold perform acts s"

text \<open>
  What does hold of the two cache variables: a token is present only together with an
  expiry, and an expiry is at most 50 minutes ahead of the clock.
\<close>

definition cache_inv :: "sys \<Rightarrow> bool" where
  "cache_inv s =
     ((token_present s \<longrightarrow> tokenExpiry s \<noteq> None) \<and>
      (case tokenExpiry s of None \<Rightarrow> True | Some e \<Rightarrow> e \<le> now s + 50 * 60 * 1000))"

section \<open>The debouncer and the process\<close>

text \<open>
  The timers of the runtime are part of the world too. An armed timer has the handle
  \<^verbatim>\<open>setTimeout\<close> returned, the time it is due, and the path its callback closes over.
  A timer armed at time \<open>t\<close> is due at \<open>t\<close> plus its delay, and its callback runs when
  the clock reaches that time.
\<close>

record timer =
  handle :: nat
  due :: nat
  target :: string

datatype notice = ChangeDetected string js_number | ShuttingDown

text \<open>
  The process: the clock, the armed timers in the order they were armed, the next
  handle, the map \<^verbatim>\<open>debounceTimers\<close> (entries in insertion order), the calls of
  \<^verbatim>\<open>uploadBarFile\<close> made by timer callbacks (time and path), the uploads that have
  started and not settled yet, whether the watcher was closed, the exit status once
  the process has exited, and the console.
\<close>

record proc =
  clock :: nat
  timers :: "timer list"
  next_handle :: nat
  debounceTimers :: "(string \<times> nat) list"
  uploads :: "(nat \<times> string) list"
  running :: "string list"
  watcher_closed :: bool
  exit_code :: "int option"
  notices :: "notice list"

definition boot :: "nat \<Rightarrow> proc" where
  "boot t = \<lparr>clock = t, timers = [], next_handle = 0, debounceTimers = [], uploads = [],
     running = [], watcher_closed = False, exit_code = None, notices = []\<rparr>"

text \<open>
  The delay of a timer, as \<^verbatim>\<open>setTimeout\<close> of Node takes it: the number of milliseconds
  asked for when that is between 1 and 2147483647; 1 ms for every other number and for
  \<^verbatim>\<open>NaN\<close>.
\<close>

fun timeout_delay :: "js_number \<Rightarrow> nat" where
  "timeout_delay NaN = 1"
| "timeout_delay (Num n) = (if 1 \<le> n \<and> n \<le> 2147483647 then nat n else 1)"

definition setTimeout :: "string \<Rightarrow> js_number \<Rightarrow> proc \<Rightarrow> nat \<times> proc" where
  "setTimeout filePath delay s =
     (next_handle s,
      s\<lparr>timers := timers s @ [\<lparr>handle = next_handle s, due = clock s + timeout_delay delay,
                                target = filePath\<rparr>],
        next_handle := next_handle s + 1\<rparr>)"

definition clearTimeout :: "nat \<Rightarrow> proc \<Rightarrow> proc" where
  "clearTimeout h s = s\<lparr>timers := filter (\<lambda>x. handle x \<noteq> h) (timers s)\<rparr>"

text \<open>
  \<^verbatim>\<open>handleFileChange\<close>: clear the timer the map holds for the path, arm a new one, store
  its handle under the path, log.
\<close>

definition handleFileChange :: "config \<Rightarrow> string \<Rightarrow> proc \<Rightarrow> proc" where
  "handleFileChange cfg filePath s =
     (let fileName = basename filePath;
          s1 = (case map_of (debounceTimers s) filePath of
                  Some h \<Rightarrow> clearTimeout h s
                | None \<Rightarrow> s);
          (timer, s2) = setTimeout filePath (debounceMs cfg) s1;
          s3 = s2\<lparr>debounceTimers := AList.update filePath timer (debounceTimers s2)\<rparr>
      in s3\<lparr>notices := notices s3 @ [ChangeDetected fileName (debounceMs cfg)]\<rparr>)"

text \<open>
  The callback of the timer: \<^verbatim>\<open>debounceTimers.delete(filePath); uploadBarFile(filePath)\<close>.
  The call is not awaited: the upload starts and runs on while the process handles
  other events, until it settles.
\<close>

definition start_upload :: "string \<Rightarrow> proc \<Rightarrow> proc" where
  "start_upload filePath s =
     s\<lparr>uploads := uploads s @ [(clock s, filePath)], running := running s @ [filePath]\<rparr>"

definition fire :: "timer \<Rightarrow> proc \<Rightarrow> proc" where
  "fire x s =
     start_upload (target x) (s\<lparr>debounceTimers := AList.delete (target x) (debounceTimers s)\<rparr>)"

definition upload_settled :: "string \<Rightarrow> proc \<Rightarrow> proc" where
  "upload_settled filePath s = s\<lparr>running := remove1 filePath (running s)\<rparr>"

text \<open>The timer to run first among those due: the earliest, the first armed among equals.\<close>

fun earliest :: "timer \<Rightarrow> timer list \<Rightarrow> timer" where
  "earliest x [] = x"
| "earliest x (y # ys) = earliest (if due y < due x then y else x) ys"

text \<open>
  The event loop up to time \<open>t\<close>: as long as a timer is due, the first one is taken off
  the list and its callback runs at its due time. A process that has exited runs
  nothing.
\<close>

function run_timers :: "nat \<Rightarrow> proc \<Rightarrow> proc" where
  "run_timers t s =
     (if exit_code s \<noteq> None then s
      else case filter (\<lambda>x. due x \<le> t) (timers s) of
             [] \<Rightarrow> s\<lparr>clock := max (clock s) t\<rparr>
           | x # xs \<Rightarrow>
               let y = earliest x xs
               in run_timers t (fire y (s\<lparr>timers := remove1 y (timers s),
                                         clock := max (clock s) (due y)\<rparr>)))"
  by pat_completeness auto

lemma earliest_mem: "earliest x xs \<in> set (x # xs)"
  by (induction xs arbitrary: x) auto

lemma fire_timers [simp]: "timers (fire x s) = timers s"
  by (simp add: fire_def start_upload_def)

termination run_timers
proof (relation "measure (\<lambda>(t, s). length (timers s))")
  show "wf (measure (\<lambda>(t, s). length (timers s)))" by simp
next
  fix t :: nat and s :: proc and x xs y
  assume f: "filter (\<lambda>x. due x \<le> t) (timers s) = x # xs" and y: "y = earliest x xs"
  have "y \<in> set (x # xs)" using y earliest_mem by simp
  with f have "y \<in> set (filter (\<lambda>x. due x \<le> t) (timers s))" by simp
  then have "y \<in> set (timers s)" by simp
  then have "length (remove1 y (timers s)) < length (timers s)"
    by (simp add: length_remove1) (cases "timers s"; simp)
  then show "((t, fire y (s\<lparr>timers := remove1 y (timers s), clock := max (clock s) (due y)\<rparr>)), (t, s))
        \<in> measure (\<lambda>(t, s). length (timers s))"
    by simp
qed

declare run_timers.simps [simp del]

text \<open>
  The handler of \<^verbatim>\<open>SIGINT\<close>, the one signal the process listens to:
  \<^verbatim>\<open>watcher.close(); process.exit(0)\<close>.
\<close>

definition sigint :: "proc \<Rightarrow> proc" where
  "sigint s = s\<lparr>notices := notices s @ [ShuttingDown], watcher_closed := True, exit_code := Some 0\<rparr>"

text \<open>
  An upload can end the process. When the file is gone, \<^verbatim>\<open>fs.statSync\<close> throws after
  \<^verbatim>\<open>fs.createReadStream\<close> has made its stream; the \<^verbatim>\<open>catch\<close> of \<^verbatim>\<open>uploadBarFile\<close> logs
  the error, and the stream, which nobody reads or listens to, emits \<^verbatim>\<open>'error'\<close> a
  moment later: an uncaught error, on which the process exits with status 1. The
  process model does not look into the uploads, so this is an event that can happen
  once an upload of the path has been started.
\<close>

definition stream_error :: "string \<Rightarrow> proc \<Rightarrow> proc" where
  "stream_error filePath s =
     (if filePath \<in> set (map snd (uploads s)) then s\<lparr>exit_code := Some 1\<rparr> else s)"

text \<open>
  What happens to a process: the watcher reports a change, the clock advances to a time
  and the timers due by then run, an upload settles, the stream of an upload fails, the
  signal arrives. Nothing happens to a process that has exited. The states of a process
  are those that a list of events leads to from its boot: \<open>play cfg es (boot t)\<close>.
\<close>

datatype event =
    FileChange string
  | AdvanceTo nat
  | UploadSettled string
  | StreamError string
  | Sigint

fun step :: "config \<Rightarrow> event \<Rightarrow> proc \<Rightarrow> proc" where
  "step cfg e s =
     (if exit_code s \<noteq> None then s
      else case e of
             FileChange filePath \<Rightarrow> handleFileChange cfg filePath s
           | AdvanceTo t \<Rightarrow> run_timers t s
           | UploadSettled filePath \<Rightarrow> upload_settled filePath s
           | StreamError filePath \<Rightarrow> stream_error filePath s
           | Sigint \<Rightarrow> sigint s)"

declare step.simps [simp del]

definition play :: "config \<Rightarrow> event list \<Rightarrow> proc \<Rightarrow> proc" where
  "play cfg es s = fold (step cfg) es s"

text \<open>
  The armed timers of a path, and the times at which its upload was started.
\<close>

definition pending :: "string \<Rightarrow> proc \<Rightarrow> timer list" where
  "pending p s = filter (\<lambda>x. target x = p) (timers s)"

definition triggers :: "string \<Rightarrow> proc \<Rightarrow> nat list" where
  "triggers p s = map fst (filter (\<lambda>u. snd u = p) (uploads s))"

text \<open>
  The map and the armed timers agree: the keys of the map are distinct, so are the
  handles and the paths of the timers, the entries of the map are the armed timers, and
  no timer is overdue.
\<close>

definition debounce_inv :: "proc \<Rightarrow> bool" where
  "debounce_inv s =
     (distinct (map fst (debounceTimers s)) \<and>
      distinct (map handle (timers s)) \<and>
      distinct (map target (timers s)) \<and>
      set (debounceTimers s) = (\<lambda>x. (target x, handle x)) ` set (timers s) \<and>
      list_all (\<lambda>x. handle x < next_handle s \<and> clock s \<le> due x) (timers s))"

text \<open>
  The times at which a path is reported changed in a list of events, when the clock
  reads \<open>c\<close> at its start: a change happens at the time the clock has advanced to. The
  gaps of a list of times are below \<open>d\<close> when each time is less than \<open>d\<close> after the one
  before it.
\<close>

fun change_times :: "string \<Rightarrow> nat \<Rightarrow> event list \<Rightarrow> nat list" where
  "change_times p c [] = []"
| "change_times p c (AdvanceTo t # es) = change_times p (max c t) es"
| "change_times p c (FileChange q # es) =
     (if q = p then c # change_times p c es else change_times p c es)"
| "change_times p c (e # es) = change_times p c es"

fun gaps_below :: "nat \<Rightarrow> nat list \<Rightarrow> bool" where
  "gaps_below d [] = True"
| "gaps_below d [t] = True"
| "gaps_below d (t # u # ts) = (t \<le> u \<and> u < t + d \<and> gaps_below d (u # ts))"

text \<open>
  What the debouncer owes a path \<open>p\<close> whose uploads had started at the times \<open>tr\<close>
  before: nothing if \<open>p\<close> has not changed since; after a last change at \<open>u\<close>, one timer
  due at \<open>u + d\<close> as long as the clock is before that time, and from then on no timer
  and one more upload, started at \<open>u + d\<close>.
\<close>

definition owes :: "nat \<Rightarrow> string \<Rightarrow> nat list \<Rightarrow> nat option \<Rightarrow> proc \<Rightarrow> bool" where
  "owes d p tr l s =
     (case l of
        None \<Rightarrow> pending p s = [] \<and> triggers p s = tr
      | Some u \<Rightarrow>
          u \<le> clock s \<and>
          (if clock s < u + d
           then map due (pending p s) = [u + d] \<and> triggers p s = tr
           else pending p s = [] \<and> triggers p s = tr @ [u + d]))"

section \<open>Worlds and states used as examples\<close>

definition cfg0 :: config where
  "cfg0 = \<lparr>apiBaseUrl = ''https://api.example.com'', clientId = ''client'',
     clientSecret = ''secret'', apiKey = ''key'', instanceId = ''instance'',
     debounceMs = Num 1000\<rparr>"

definition unauthorized :: response where
  "unauthorized = \<lparr>status = 401, statusText = ''Unauthorized'',
     text_body = Inr ''Invalid credentials'', json_body = Inl (Error ''invalid json'')\<rparr>"

definition granted :: "string \<Rightarrow> response" where
  "granted tok = \<lparr>status = 200, statusText = ''OK'', text_body = Inr [],
     json_body = Inr (JsonObject [(''access_token'', Str tok)])\<rparr>"

definition accepted :: response where
  "accepted = \<lparr>status = 200, statusText = ''OK'', text_body = Inr [],
     json_body = Inr (JsonObject [(''status'', Str ''success'')])\<rparr>"

definition no_files :: "nat \<Rightarrow> string \<Rightarrow> js_error + 'a" where
  "no_files k p = Inl (Error ''ENOENT'')"

definition files :: "nat \<Rightarrow> nat \<Rightarrow> string \<Rightarrow> js_error + nat" where
  "files n k p = Inr n"

definition streams :: "nat \<Rightarrow> string \<Rightarrow> js_error + string" where
  "streams k p = Inr p"

text \<open>A token endpoint that refuses; nothing else is reached.\<close>

definition denied :: world where
  "denied = \<lparr>token_fetch = (\<lambda>n. (120, Inr unauthorized)),
     upload_fetch = (\<lambda>n. (0, Inl (Error ''unreachable''))),
     createReadStream = no_files, statSync = no_files\<rparr>"

text \<open>A token endpoint that issues \<^verbatim>\<open>tok-A\<close> at once.\<close>

definition issuing :: world where
  "issuing = \<lparr>token_fetch = (\<lambda>n. (0, Inr (granted ''tok-A''))),
     upload_fetch = (\<lambda>n. (0, Inl (Error ''unreachable''))),
     createReadStream = no_files, statSync = no_files\<rparr>"


text \<open>An upload endpoint that answers 401 once and then 200.\<close>

definition rejecting_once :: world where
  "rejecting_once = \<lparr>token_fetch = (\<lambda>n. (0, Inr (granted ''tok-A''))),
     upload_fetch = (\<lambda>n. (0, Inr (if n < 1 then unauthorized else accepted))),
     createReadStream = streams, statSync = files 1024\<rparr>"

text \<open>An upload endpoint that answers 401 twice and then 200.\<close>

definition rejecting_twice :: world where
  "rejecting_twice = \<lparr>token_fetch = (\<lambda>n. (0, Inr (granted ''tok-A''))),
     upload_fetch = (\<lambda>n. (0, Inr (if n < 2 then unauthorized else accepted))),
     createReadStream = streams, statSync = files 1024\<rparr>"

text \<open>An upload endpoint that answers 401 every time.\<close>

definition rejecting :: world where
  "rejecting = \<lparr>token_fetch = (\<lambda>n. (0, Inr (granted ''tok-A''))),
     upload_fetch = (\<lambda>n. (0, Inr unauthorized)),
     createReadStream = streams, statSync = files 1024\<rparr>"

text \<open>A token fetched at time 0, and the cache looked at 50 minutes later.\<close>

definition fetched :: sys where
  "fetched = run [GenerateToken cfg0 issuing] (initial 0)"

definition stale :: sys where
  "stale = run [GenerateToken cfg0 issuing, Wait (50 * 60 * 1000)] (initial 0)"

text \<open>A change to a file, a second of quiet, and a change to the same file again.\<close>

definition busy :: proc where
  "busy = play cfg0 [FileChange ''/w/a.bar'', AdvanceTo 1000, FileChange ''/w/a.bar''] (boot 0)"

text \<open>
  The timer of one file is armed; then another file changes at 0, 400 and 900 ms, the
  timer of the first file runs at 1000 ms and its upload settles.
\<close>

definition waiting :: proc where
  "waiting = play cfg0 [FileChange ''/w/b.bar''] (boot 0)"

definition three_changes :: "event list" where
  "three_changes =
     [FileChange ''/w/a.bar'', AdvanceTo 400, FileChange ''/w/a.bar'', AdvanceTo 900,
      FileChange ''/w/a.bar'', AdvanceTo 1000, UploadSettled ''/w/b.bar'']"

text \<open>
  A delay of 2147483648 ms, one more than a timer takes; a change to a file, and another
  change to it 50 ms later.
\<close>

definition cfg_overflow :: config where
  "cfg_overflow = cfg0\<lparr>debounceMs := Num 2147483648\<rparr>"

definition overflowed :: proc where
  "overflowed = play cfg_overflow
     [FileChange ''/w/a.bar'', AdvanceTo 50, FileChange ''/w/a.bar'', AdvanceTo 3000000000] (boot 0)"

text \<open>A change to a file and the signal half a second later.\<close>

definition interrupted :: proc where
  "interrupted = play cfg0 [FileChange ''/w/a.bar'', AdvanceTo 500, Sigint] (boot 0)"

section \<open>Basic facts\<close>

lemma log_fields [simp]:
  "cachedToken (log d s) = cachedToken s"
  "tokenExpiry (log d s) = tokenExpiry s"
  "now (log d s) = now s"
  "token_requests (log d s) = token_requests s"
  "upload_requests (log d s) = upload_requests s"
  "token_calls (log d s) = token_calls s"
  "upload_calls (log d s) = upload_calls s"
  "attempts (log d s) = attempts s"
  "invalidations (log d s) = invalidations s"
  "console (log d s) = console s @ [d]"
  by (simp_all add: log_def token_calls_def upload_calls_def)

lemma invalidate_fields [simp]:
  "cachedToken (invalidate s) = Null"
  "tokenExpiry (invalidate s) = None"
  "now (invalidate s) = now s"
  "token_requests (invalidate s) = token_requests s"
  "upload_requests (invalidate s) = upload_requests s"
  "token_calls (invalidate s) = token_calls s"
  "upload_calls (invalidate s) = upload_calls s"
  "attempts (invalidate s) = attempts s"
  "invalidations (invalidate s) = invalidations s + 1"
  "console (invalidate s) = console s"
  by (simp_all add: invalidate_def token_calls_def upload_calls_def)

lemma not_valid_invalidate [simp]: "\<not> cache_valid (invalidate s)"
  by (simp add: cache_valid_def)

lemma fetch_token_calls: "token_calls (snd (fetch_token cfg w s)) = token_calls s + 1"
  by (simp add: fetch_token_def token_calls_def Let_def split: prod.splits sum.splits)

section \<open>Facts about the token cache\<close>

lemma fetch_token_Inl:
  "fetch_token cfg w s = (Inl e, s') \<Longrightarrow> cachedToken s' = cachedToken s \<and> tokenExpiry s' = tokenExpiry s"
  by (auto simp: fetch_token_def Let_def split: prod.splits sum.splits if_splits)

lemma fetch_token_Inr:
  "fetch_token cfg w s = (Inr tok, s') \<Longrightarrow>
     cachedToken s' = tok \<and> tokenExpiry s' = Some (now s' + 50 * 60 * 1000)"
  by (auto simp: fetch_token_def Let_def split: prod.splits sum.splits if_splits)

lemma fetch_token_now: "now s \<le> now (snd (fetch_token cfg w s))"
  by (auto simp: fetch_token_def Let_def split: prod.splits sum.splits if_splits)

lemma fetch_token_uploads: "upload_requests (snd (fetch_token cfg w s)) = upload_requests s"
  by (auto simp: fetch_token_def Let_def split: prod.splits sum.splits if_splits)

lemma generateToken_Inr:
  "generateToken cfg w s = (Inr tok, s') \<Longrightarrow> cachedToken s' = tok"
  by (auto simp: generateToken_def split: prod.splits sum.splits if_splits dest: fetch_token_Inr)

lemma generateToken_uploads: "upload_requests (snd (generateToken cfg w s)) = upload_requests s"
proof -
  obtain r s' where f: "fetch_token cfg w s = (r, s')"
    by (cases "fetch_token cfg w s")
  with fetch_token_uploads [of cfg w s] have "upload_requests s' = upload_requests s" by simp
  with f show ?thesis
    by (cases r) (simp_all add: generateToken_def)
qed

lemma generateToken_calls:
  "token_calls (snd (generateToken cfg w s)) = token_calls s + (if cache_valid s then 0 else 1)"
proof -
  obtain r s' where f: "fetch_token cfg w s = (r, s')"
    by (cases "fetch_token cfg w s")
  from fetch_token_calls [of cfg w s] f
  have "token_calls s' = token_calls s + 1" by simp
  with f show ?thesis
    by (cases r) (simp_all add: generateToken_def)
qed

lemma generateToken_hit:
  "cache_valid s \<Longrightarrow> generateToken cfg w s = (Inr (cachedToken s), log UsingCachedToken s)"
  by (simp add: generateToken_def)

lemma cache_inv_log [simp]: "cache_inv (log d s) = cache_inv s"
  by (auto simp: cache_inv_def token_present_def split: option.splits)

lemma cache_inv_later:
  "cache_inv s \<Longrightarrow> cachedToken s' = cachedToken s \<Longrightarrow> tokenExpiry s' = tokenExpiry s \<Longrightarrow>
     now s \<le> now s' \<Longrightarrow> cache_inv s'"
  by (auto simp: cache_inv_def token_present_def split: option.splits)

lemma cache_inv_generateToken: "cache_inv s \<Longrightarrow> cache_inv (snd (generateToken cfg w s))"
proof (cases "cache_valid s")
  case True
  assume "cache_inv s"
  then show ?thesis using True by (simp add: generateToken_hit)
next
  case False
  assume inv: "cache_inv s"
  obtain r s' where f: "fetch_token cfg w s = (r, s')"
    by (cases "fetch_token cfg w s")
  have mono: "now s \<le> now s'"
    using fetch_token_now [of s cfg w] f by simp
  show ?thesis
  proof (cases r)
    case (Inl e)
    with f have "cachedToken s' = cachedToken s" "tokenExpiry s' = tokenExpiry s"
      using fetch_token_Inl by blast+
    with inv have "cache_inv s'" using mono by (rule cache_inv_later)
    with Inl f False show ?thesis by (simp add: generateToken_def)
  next
    case (Inr tok)
    with f have "tokenExpiry s' = Some (now s' + 50 * 60 * 1000)"
      using fetch_token_Inr by blast
    with Inr f False show ?thesis
      by (simp add: generateToken_def cache_inv_def)
  qed
qed

lemma cache_inv_invalidate [simp]: "cache_inv (invalidate s)"
  by (simp add: cache_inv_def token_present_def)

lemma cache_inv_sent:
  assumes "cache_inv s"
  shows "cache_inv (s\<lparr>upload_requests := rs, now := now s + d\<rparr>)"
  using assms by (rule cache_inv_later) simp_all

lemma cache_inv_begin [simp]: "cache_inv (begin_attempt f s) = cache_inv s"
  by (auto simp: begin_attempt_def cache_inv_def token_present_def split: option.splits)

lemma cache_inv_upload_body:
  assumes "cache_inv s"
  shows "cache_inv (snd (upload_body cfg w filePath s))"
proof -
  obtain r s1 where g: "generateToken cfg w (begin_attempt (basename filePath) s) = (r, s1)"
    by (cases "generateToken cfg w (begin_attempt (basename filePath) s)")
  have s1: "cache_inv s1"
    using cache_inv_generateToken [of "begin_attempt (basename filePath) s" cfg w] assms g by simp
  have sent: "\<And>rs d. cache_inv (s1\<lparr>upload_requests := rs, now := now s1 + d\<rparr>)"
    using s1 by (rule cache_inv_sent)
  show ?thesis
    using g s1 sent
    by (simp add: upload_body_def Let_def split: sum.splits prod.splits)
qed

lemma cache_inv_upload_attempt:
  assumes "cache_inv s"
  shows "cache_inv (snd (upload_attempt cfg w filePath s))"
proof -
  obtain r s' where b: "upload_body cfg w filePath s = (r, s')"
    by (cases "upload_body cfg w filePath s")
  with cache_inv_upload_body [OF assms, of cfg w filePath] have "cache_inv s'" by simp
  with b show ?thesis
    by (cases r) (simp_all add: upload_attempt_def)
qed

section \<open>Facts about the upload\<close>

lemma uploadBarFile_Retry:
  "upload_attempt cfg w filePath s = (Retry, s') \<Longrightarrow>
     uploadBarFile cfg w filePath s = uploadBarFile cfg w filePath s'"
  by (subst uploadBarFile.simps) simp

lemma uploadBarFile_Finished:
  "upload_attempt cfg w filePath s = (Finished, s') \<Longrightarrow> uploadBarFile cfg w filePath s = Some s'"
  by (subst uploadBarFile.simps) simp

lemma retry_forever:
  assumes always: "\<And>s. fst (upload_attempt cfg w filePath s) = Retry"
  shows "uploadBarFile cfg w filePath s = None"
proof -
  have "\<not> (cfg' = cfg \<and> w' = w \<and> p' = filePath)"
    if returns: "uploadBarFile cfg' w' p' s' = Some y" for cfg' w' p' s' y
  proof (rule uploadBarFile.raw_induct
      [where P = "\<lambda>cfg' w' p' s' y. \<not> (cfg' = cfg \<and> w' = w \<and> p' = filePath)", OF _ returns])
    fix f :: "config \<Rightarrow> world \<Rightarrow> string \<Rightarrow> sys \<Rightarrow> sys option"
    fix c1 w1 p1 s1 y1
    assume IH: "\<And>c2 w2 p2 s2 y2. f c2 w2 p2 s2 = Some y2 \<Longrightarrow>
                  \<not> (c2 = cfg \<and> w2 = w \<and> p2 = filePath)"
      and step: "(case upload_attempt c1 w1 p1 s1 of
                    (Finished, s') \<Rightarrow> Some s'
                  | (Retry, s') \<Rightarrow> f c1 w1 p1 s') = Some y1"
    show "\<not> (c1 = cfg \<and> w1 = w \<and> p1 = filePath)"
    proof
      assume eq: "c1 = cfg \<and> w1 = w \<and> p1 = filePath"
      obtain c s'' where a: "upload_attempt cfg w filePath s1 = (c, s'')"
        by (cases "upload_attempt cfg w filePath s1")
      with always [of s1] have "c = Retry" by simp
      with a eq step have "f cfg w filePath s'' = Some y1" by simp
      from IH [OF this] show False by simp
    qed
  qed
  then have "uploadBarFile cfg w filePath s \<noteq> Some y" for y by blast
  then show ?thesis by (cases "uploadBarFile cfg w filePath s") blast+
qed

lemma rejecting_token:
  "\<exists>tok s1. generateToken cfg0 rejecting s = (Inr tok, s1) \<and> truthy tok"
proof (cases "cache_valid s")
  case True
  then show ?thesis by (simp add: generateToken_hit cache_valid_def)
next
  case False
  then show ?thesis
    by (simp add: generateToken_def fetch_token_def rejecting_def granted_def ok_def Let_def)
qed

lemma rejecting_retry: "fst (upload_attempt cfg0 rejecting filePath s) = Retry"
proof -
  obtain tok s1 where g: "generateToken cfg0 rejecting (begin_attempt (basename filePath) s) = (Inr tok, s1)"
    and t: "truthy tok"
    using rejecting_token by blast
  from g have "cachedToken s1 = tok" by (rule generateToken_Inr)
  with g t show ?thesis
    by (simp add: upload_attempt_def upload_body_def Let_def rejecting_def streams_def files_def
          unauthorized_def ok_def)
qed


lemmas eval_defs = upload_attempt_def upload_body_def begin_attempt_def generateToken_def
  fetch_token_def cache_valid_def initial_def log_def invalidate_def Let_def ok_def
  upload_calls_def token_calls_def upload_request_def token_request_def basename_def
  unauthorized_def granted_def accepted_def streams_def files_def cfg0_def


lemma rejecting_twice_run:
  "uploadBarFile cfg0 rejecting_twice ''/w/a.bar'' (initial 0) =
     Some (snd (upload_attempt cfg0 rejecting_twice ''/w/a.bar''
       (snd (upload_attempt cfg0 rejecting_twice ''/w/a.bar''
         (snd (upload_attempt cfg0 rejecting_twice ''/w/a.bar'' (initial 0)))))))"
proof -
  let ?go = "upload_attempt cfg0 rejecting_twice ''/w/a.bar''"
  let ?s1 = "snd (?go (initial 0))"
  let ?s2 = "snd (?go ?s1)"
  have "fst (?go (initial 0)) = Retry"
    by (simp add: eval_defs rejecting_twice_def)
  then have 1: "?go (initial 0) = (Retry, ?s1)" by (simp add: prod_eq_iff)
  have "fst (?go ?s1) = Retry"
    by (simp add: eval_defs rejecting_twice_def)
  then have 2: "?go ?s1 = (Retry, ?s2)" by (simp add: prod_eq_iff)
  have "fst (?go ?s2) = Finished"
    by (simp add: eval_defs rejecting_twice_def)
  then have 3: "?go ?s2 = (Finished, snd (?go ?s2))" by (simp add: prod_eq_iff)
  show ?thesis
    by (simp only: uploadBarFile_Retry [OF 1] uploadBarFile_Retry [OF 2] uploadBarFile_Finished [OF 3])
qed


text \<open>
  Every pass through the body sends at most one request to the upload endpoint, and the
  one it sends is the request built from the basename of the path and the size that
  \<^verbatim>\<open>statSync\<close> gave.
\<close>

lemma upload_attempt_requests:
  "upload_requests (snd (upload_attempt cfg w filePath s)) = upload_requests s \<or>
   (\<exists>token fileStream fileSize.
      statSync w (attempts s) filePath = Inr fileSize \<and>
      upload_requests (snd (upload_attempt cfg w filePath s)) =
        upload_requests s @ [upload_request cfg (basename filePath) token fileStream fileSize])"
proof -
  obtain r s1 where g: "generateToken cfg w (begin_attempt (basename filePath) s) = (r, s1)"
    by (cases "generateToken cfg w (begin_attempt (basename filePath) s)")
  have same: "upload_requests s1 = upload_requests s"
    using generateToken_uploads [of cfg w "begin_attempt (basename filePath) s"] g
    by (simp add: begin_attempt_def)
  show ?thesis
    using g same
    by (auto simp: upload_attempt_def upload_body_def Let_def
          split: sum.splits prod.splits if_splits)
qed

text \<open>One 401 and then 200: two requests, one invalidation, and the upload succeeds.\<close>

lemma single_retry:
  "map_option upload_calls (uploadBarFile cfg0 rejecting_once ''/w/a.bar'' (initial 0)) = Some 2 \<and>
   map_option invalidations (uploadBarFile cfg0 rejecting_once ''/w/a.bar'' (initial 0)) = Some 1 \<and>
   map_option (last \<circ> console) (uploadBarFile cfg0 rejecting_once ''/w/a.bar'' (initial 0)) =
     Some (UploadSucceeded ''a.bar'' (JsonObject [(''status'', Str ''success'')]))"
proof -
  let ?go = "upload_attempt cfg0 rejecting_once ''/w/a.bar''"
  let ?s1 = "snd (?go (initial 0))"
  have "fst (?go (initial 0)) = Retry"
    by (simp add: eval_defs rejecting_once_def)
  then have 1: "?go (initial 0) = (Retry, ?s1)" by (simp add: prod_eq_iff)
  have "fst (?go ?s1) = Finished"
    by (simp add: eval_defs rejecting_once_def)
  then have 2: "?go ?s1 = (Finished, snd (?go ?s1))" by (simp add: prod_eq_iff)
  show ?thesis
    unfolding uploadBarFile_Retry [OF 1] uploadBarFile_Finished [OF 2]
    by (simp add: eval_defs rejecting_once_def)
qed

lemma cache_inv_run: "cache_inv s \<Longrightarrow> cache_inv (run acts s)"
  unfolding run_def
proof (induction acts arbitrary: s)
  case Nil
  then show ?case by simp
next
  case (Cons a acts)
  have "cache_inv (perform a s)"
  proof (cases a)
    case (Wait d)
    with Cons.prems show ?thesis
      by (auto simp: cache_inv_def tick_def token_present_def split: option.splits)
  next
    case (GenerateToken cfg w)
    with Cons.prems show ?thesis by (simp add: cache_inv_generateToken)
  next
    case Invalidate
    then show ?thesis by simp
  next
    case (UploadAttempt cfg w filePath)
    with Cons.prems show ?thesis by (simp add: cache_inv_upload_attempt)
  qed
  then show ?case by (simp add: Cons.IH)
qed

lemma fetched_eq:
  "fetched = \<lparr>cachedToken = Str ''tok-A'', tokenExpiry = Some 3000000, now = 0,
     token_requests = [token_request cfg0], upload_requests = [], attempts = 0,
     invalidations = 0, console = [GeneratingToken, TokenGenerated]\<rparr>"
  by (simp add: fetched_def run_def generateToken_def fetch_token_def cache_valid_def
        initial_def issuing_def granted_def ok_def log_def Let_def)

lemma stale_eq:
  "stale = \<lparr>cachedToken = Str ''tok-A'', tokenExpiry = Some 3000000, now = 3000000,
     token_requests = [token_request cfg0], upload_requests = [], attempts = 0,
     invalidations = 0, console = [GeneratingToken, TokenGenerated]\<rparr>"
  using fetched_eq by (simp add: stale_def fetched_def run_def tick_def)

lemma decimal_401: "decimal 401 = ''401''"
  by (simp add: decimal.simps)

section \<open>The claims about the token cache\<close>

text \<open>
  C2. Take a call of \<^verbatim>\<open>generateToken\<close> that returns a token and leaves it cached, and a
  second call whose reading of the clock is before the cached expiry. The second call
  returns the identical value and sends no request to the token endpoint; the first
  sent exactly one if it found no valid token, and none if it was served from the
  cache. So one acquisition in total stands behind both values.
\<close>

theorem token_reuse:
  assumes first: "generateToken cfg w s = (Inr tok, s1)"
      and cached: "truthy (cachedToken s1)"
      and window: "tokenExpiry s1 = Some e" "t2 < e"
  shows "fst (generateToken cfg w (s1\<lparr>now := t2\<rparr>)) = Inr tok \<and>
         token_calls (snd (generateToken cfg w (s1\<lparr>now := t2\<rparr>))) = token_calls s1 \<and>
         token_calls s1 = token_calls s + (if cache_valid s then 0 else 1)"
proof -
  have tok: "cachedToken s1 = tok" using first by (rule generateToken_Inr)
  have valid: "cache_valid (s1\<lparr>now := t2\<rparr>)"
    using cached window by (simp add: cache_valid_def)
  have "token_calls s1 = token_calls s + (if cache_valid s then 0 else 1)"
    using generateToken_calls [of cfg w s] first by simp
  moreover have "fst (generateToken cfg w (s1\<lparr>now := t2\<rparr>)) = Inr tok"
    using valid tok by (simp add: generateToken_hit)
  moreover have "token_calls (snd (generateToken cfg w (s1\<lparr>now := t2\<rparr>))) = token_calls s1"
    using valid by (simp add: generateToken_hit token_calls_def)
  ultimately show ?thesis by simp
qed

text \<open>
  The first call at time 0 fetches \<^verbatim>\<open>tok-A\<close>, valid until 3000000; the second call one
  second later returns it again, and one request has been sent in all.
\<close>

theorem token_reuse_witness:
  "generateToken cfg0 issuing (initial 0) = (Inr (Str ''tok-A''), fetched) \<and>
   truthy (cachedToken fetched) \<and> tokenExpiry fetched = Some 3000000 \<and>
   fst (generateToken cfg0 issuing (fetched\<lparr>now := 1000\<rparr>)) = Inr (Str ''tok-A'') \<and>
   token_calls (snd (generateToken cfg0 issuing (fetched\<lparr>now := 1000\<rparr>))) = 1 \<and>
   token_calls fetched = 1"
proof -
  have first: "generateToken cfg0 issuing (initial 0) = (Inr (Str ''tok-A''), fetched)"
    by (simp add: fetched_def run_def generateToken_def fetch_token_def cache_valid_def
          initial_def issuing_def granted_def ok_def log_def Let_def)
  have cached: "truthy (cachedToken fetched)" by (simp add: fetched_eq)
  have expiry: "tokenExpiry fetched = Some 3000000" by (simp add: fetched_eq)
  have miss: "\<not> cache_valid (initial 0)" by (simp add: cache_valid_def initial_def)
  from token_reuse [OF first cached expiry, of 1000] first cached expiry miss
  show ?thesis by (simp add: token_calls_def initial_def)
qed

text \<open>
  C3. After an invalidation the next \<^verbatim>\<open>generateToken\<close> call issues one new call to the
  token endpoint, whatever the clock reads and whatever the expiry was before the
  invalidation.
\<close>

theorem invalidate_then_fetch:
  "token_calls (snd (generateToken cfg w (invalidate s))) = token_calls s + 1"
proof -
  obtain r s' where f: "fetch_token cfg w (invalidate s) = (r, s')"
    by (cases "fetch_token cfg w (invalidate s)")
  from fetch_token_calls [of cfg w "invalidate s"] f
  have "token_calls s' = token_calls s + 1" by simp
  with f show ?thesis
    by (cases r) (simp_all add: generateToken_def)
qed

text \<open>
  C4. When the cache holds no valid token and the token endpoint answers with a status
  outside 200-299 and a readable body, \<^verbatim>\<open>generateToken\<close> throws an error whose message
  carries the status, the status text and the body, and the two cache variables are
  what they were before the call.
\<close>

theorem token_failure:
  assumes "\<not> cache_valid s"
      and "token_fetch w (token_calls s) = (d, Inr r)"
      and "\<not> ok r"
      and "text_body r = Inr errorText"
  shows "fst (generateToken cfg w s) =
           Inl (Error (''Token generation failed: '' @ decimal (status r) @ '' '' @
                  statusText r @ '' - '' @ errorText)) \<and>
         cachedToken (snd (generateToken cfg w s)) = cachedToken s \<and>
         tokenExpiry (snd (generateToken cfg w s)) = tokenExpiry s"
  using assms by (simp add: generateToken_def fetch_token_def token_calls_def Let_def)

theorem token_failure_witness:
  "\<not> cache_valid (initial 0) \<and>
   token_fetch denied (token_calls (initial 0)) = (120, Inr unauthorized) \<and>
   \<not> ok unauthorized \<and> text_body unauthorized = Inr ''Invalid credentials'' \<and>
   fst (generateToken cfg0 denied (initial 0)) =
     Inl (Error ''Token generation failed: 401 Unauthorized - Invalid credentials'') \<and>
   cachedToken (snd (generateToken cfg0 denied (initial 0))) = Null \<and>
   tokenExpiry (snd (generateToken cfg0 denied (initial 0))) = None"
proof -
  have a: "\<not> cache_valid (initial 0)" by (simp add: cache_valid_def initial_def)
  have b: "token_fetch denied (token_calls (initial 0)) = (120, Inr unauthorized)"
    by (simp add: denied_def)
  have c: "\<not> ok unauthorized" by (simp add: ok_def unauthorized_def)
  have d: "text_body unauthorized = Inr ''Invalid credentials''" by (simp add: unauthorized_def)
  from token_failure [OF a b c d, of cfg0] a b c d show ?thesis
    by (simp add: decimal_401 unauthorized_def initial_def)
qed

text \<open>
  C7, as it is stated, fails: a token fetched at time 0 is still in the cache 50
  minutes later, with an expiry that is no longer in the future. Nothing removes a
  token when its expiry passes; \<^verbatim>\<open>generateToken\<close> only stops using it.
\<close>

theorem stale_token_counterexample:
  "token_present stale \<and> \<not> expiry_in_future stale"
  by (simp add: stale_eq token_present_def expiry_in_future_def)

text \<open>
  C7, amended. In every state of the cache that can arise, a token is present only if
  an expiry is present, and the expiry is at most 50 minutes ahead of the clock (it is
  set to exactly that when a token is stored). Every operation on the cache keeps this.
\<close>

theorem cache_invariant: "cache_inv (run acts (initial t))"
proof (rule cache_inv_run)
  show "cache_inv (initial t)"
    by (simp add: cache_inv_def initial_def token_present_def)
qed

theorem cache_invariant_witness:
  "token_present stale \<and> tokenExpiry stale = Some 3000000 \<and> now stale = 3000000 \<and>
   cache_inv stale"
proof -
  have "cache_inv stale"
    unfolding stale_def by (rule cache_invariant)
  then show ?thesis by (simp add: stale_eq token_present_def)
qed

section \<open>The claims about the upload\<close>

text \<open>
  C1. The upload endpoint answers 401, 401 and then 200, and the token endpoint issues a
  token each time. After the second 401 the function calls itself again: three requests
  go to the upload endpoint and the cache is cleared twice, where the claim has two
  requests, one invalidation and a final failure. The retry is not bounded.
\<close>

theorem third_upload_call:
  "map_option upload_calls (uploadBarFile cfg0 rejecting_twice ''/w/a.bar'' (initial 0)) = Some 3 \<and>
   map_option invalidations (uploadBarFile cfg0 rejecting_twice ''/w/a.bar'' (initial 0)) = Some 2 \<and>
   map_option (last \<circ> console) (uploadBarFile cfg0 rejecting_twice ''/w/a.bar'' (initial 0)) =
     Some (UploadSucceeded ''a.bar'' (JsonObject [(''status'', Str ''success'')]))"
  unfolding rejecting_twice_run
  by (simp add: eval_defs rejecting_twice_def)






text \<open>
  C9. The upload endpoint answers 401 every time, the token endpoint issues a token
  every time, and the file can be read. Then, for every path and from every state,
  \<^verbatim>\<open>uploadBarFile\<close> does not return: every pass through its body ends in the call of
  the function itself.
\<close>

theorem upload_never_returns: "uploadBarFile cfg0 rejecting filePath s = None"
  by (rule retry_forever) (rule rejecting_retry)


section \<open>Facts about the debouncer\<close>

lemma earliest_least: "z \<in> set (x # xs) \<Longrightarrow> due (earliest x xs) \<le> due z"
proof (induction xs arbitrary: x z)
  case Nil
  then show ?case by simp
next
  case (Cons y ys)
  let ?m = "if due y < due x then y else x"
  have m: "due ?m \<le> due x" "due ?m \<le> due y" by auto
  have e: "due (earliest ?m ys) \<le> due ?m"
    using Cons.IH [of ?m ?m] by simp
  from Cons.prems consider "z = x" | "z = y" | "z \<in> set ys" by auto
  then show ?case
  proof cases
    case 1
    with e m show ?thesis by simp
  next
    case 2
    with e m show ?thesis by simp
  next
    case 3
    then show ?thesis using Cons.IH [of z ?m] by simp
  qed
qed

lemma earliest_due:
  assumes "filter (\<lambda>x. due x \<le> t) ts = x # xs"
  shows "earliest x xs \<in> set ts" and "due (earliest x xs) \<le> t"
    and "\<And>z. z \<in> set ts \<Longrightarrow> due z \<le> t \<Longrightarrow> due (earliest x xs) \<le> due z"
proof -
  have mem: "earliest x xs \<in> set (filter (\<lambda>x. due x \<le> t) ts)"
    using earliest_mem [of x xs] assms by simp
  then show "earliest x xs \<in> set ts" and "due (earliest x xs) \<le> t" by simp_all
  fix z assume "z \<in> set ts" "due z \<le> t"
  then have "z \<in> set (filter (\<lambda>x. due x \<le> t) ts)" by simp
  then have "z \<in> set (x # xs)" using assms by simp
  then show "due (earliest x xs) \<le> due z" by (rule earliest_least)
qed

lemma set_alist_update:
  "distinct (map fst al) \<Longrightarrow> set (AList.update k v al) = insert (k, v) {e \<in> set al. fst e \<noteq> k}"
  by (induction al) (auto simp: rev_image_eqI)

lemma set_alist_delete: "set (AList.delete k al) = {e \<in> set al. fst e \<noteq> k}"
  by (auto simp: AList.delete_eq)

lemma inv_lookup:
  assumes "debounce_inv s"
  shows "map_of (debounceTimers s) p = Some h \<longleftrightarrow> (\<exists>x \<in> set (timers s). target x = p \<and> handle x = h)"
proof -
  from assms have d: "distinct (map fst (debounceTimers s))"
    and e: "set (debounceTimers s) = (\<lambda>x. (target x, handle x)) ` set (timers s)"
    by (simp_all add: debounce_inv_def)
  have "map_of (debounceTimers s) p = Some h \<longleftrightarrow> (p, h) \<in> set (debounceTimers s)"
    using d by simp
  with e show ?thesis by auto
qed

lemma inv_cleared:
  assumes "debounce_inv s"
  shows "timers (case map_of (debounceTimers s) p of Some h \<Rightarrow> clearTimeout h s | None \<Rightarrow> s) =
           filter (\<lambda>x. target x \<noteq> p) (timers s)"
proof (cases "map_of (debounceTimers s) p")
  case None
  have "target x \<noteq> p" if "x \<in> set (timers s)" for x
  proof
    assume "target x = p"
    with that inv_lookup [OF assms, of p "handle x"] have "map_of (debounceTimers s) p = Some (handle x)"
      by blast
    with None show False by simp
  qed
  then have "filter (\<lambda>x. target x \<noteq> p) (timers s) = timers s" by (simp add: filter_id_conv)
  with None show ?thesis by simp
next
  case (Some h)
  from assms have dh: "distinct (map handle (timers s))" and dt: "distinct (map target (timers s))"
    by (simp_all add: debounce_inv_def)
  from Some inv_lookup [OF assms, of p h] obtain x
    where x: "x \<in> set (timers s)" "target x = p" "handle x = h" by blast
  have "handle y \<noteq> h \<longleftrightarrow> target y \<noteq> p" if "y \<in> set (timers s)" for y
  proof -
    have "handle y = h \<longleftrightarrow> y = x"
      using dh x that by (auto simp: distinct_map dest: inj_onD)
    moreover have "target y = p \<longleftrightarrow> y = x"
      using dt x that by (auto simp: distinct_map dest: inj_onD)
    ultimately show ?thesis by simp
  qed
  then have "filter (\<lambda>x. handle x \<noteq> h) (timers s) = filter (\<lambda>x. target x \<noteq> p) (timers s)"
    by (simp cong: filter_cong)
  with Some show ?thesis by (simp add: clearTimeout_def)
qed

lemma handleFileChange_timers:
  assumes "debounce_inv s"
  shows "timers (handleFileChange cfg p s) =
           filter (\<lambda>x. target x \<noteq> p) (timers s) @
             [\<lparr>handle = next_handle s, due = clock s + timeout_delay (debounceMs cfg), target = p\<rparr>]"
  using inv_cleared [OF assms, of p]
  by (cases "map_of (debounceTimers s) p")
     (simp_all add: handleFileChange_def setTimeout_def clearTimeout_def Let_def)

lemma handleFileChange_fields [simp]:
  "debounceTimers (handleFileChange cfg p s) = AList.update p (next_handle s) (debounceTimers s)"
  "next_handle (handleFileChange cfg p s) = next_handle s + 1"
  "clock (handleFileChange cfg p s) = clock s"
  "uploads (handleFileChange cfg p s) = uploads s"
  "running (handleFileChange cfg p s) = running s"
  "exit_code (handleFileChange cfg p s) = exit_code s"
  "watcher_closed (handleFileChange cfg p s) = watcher_closed s"
  by (cases "map_of (debounceTimers s) p";
      simp add: handleFileChange_def setTimeout_def clearTimeout_def Let_def)+

lemma debounce_inv_handleFileChange:
  assumes "debounce_inv s"
  shows "debounce_inv (handleFileChange cfg p s)"
proof -
  let ?new = "\<lparr>handle = next_handle s, due = clock s + timeout_delay (debounceMs cfg), target = p\<rparr>"
  let ?old = "filter (\<lambda>x. target x \<noteq> p) (timers s)"
  from assms have dk: "distinct (map fst (debounceTimers s))"
    and dh: "distinct (map handle (timers s))"
    and dt: "distinct (map target (timers s))"
    and e: "set (debounceTimers s) = (\<lambda>x. (target x, handle x)) ` set (timers s)"
    and b: "list_all (\<lambda>x. handle x < next_handle s \<and> clock s \<le> due x) (timers s)"
    by (simp_all add: debounce_inv_def)
  have t: "timers (handleFileChange cfg p s) = ?old @ [?new]"
    using assms by (rule handleFileChange_timers)
  have 1: "distinct (map fst (AList.update p (next_handle s) (debounceTimers s)))"
    using dk by (simp add: distinct_update)
  have 2: "distinct (map handle (?old @ [?new]))"
    using dh b by (auto simp: distinct_map_filter list_all_iff)
  have 3: "distinct (map target (?old @ [?new]))"
    using dt by (auto simp: distinct_map_filter)
  have 4: "set (AList.update p (next_handle s) (debounceTimers s)) =
             (\<lambda>x. (target x, handle x)) ` set (?old @ [?new])"
    using e by (auto simp: set_alist_update [OF dk])
  have 5: "list_all (\<lambda>x. handle x < next_handle s + 1 \<and> clock s \<le> due x) (?old @ [?new])"
    using b by (auto simp: list_all_iff)
  from 1 2 3 4 5 t show ?thesis by (simp add: debounce_inv_def)
qed

lemma fire_fields [simp]:
  "debounceTimers (fire y s) = AList.delete (target y) (debounceTimers s)"
  "next_handle (fire y s) = next_handle s"
  "clock (fire y s) = clock s"
  "uploads (fire y s) = uploads s @ [(clock s, target y)]"
  "running (fire y s) = running s @ [target y]"
  "exit_code (fire y s) = exit_code s"
  "watcher_closed (fire y s) = watcher_closed s"
  by (simp_all add: fire_def start_upload_def)

lemma run_timers_exited: "exit_code s \<noteq> None \<Longrightarrow> run_timers t s = s"
  by (subst run_timers.simps) simp

lemma run_timers_idle:
  "exit_code s = None \<Longrightarrow> filter (\<lambda>x. due x \<le> t) (timers s) = [] \<Longrightarrow>
     run_timers t s = s\<lparr>clock := max (clock s) t\<rparr>"
  by (subst run_timers.simps) simp

lemma run_timers_due:
  "exit_code s = None \<Longrightarrow> filter (\<lambda>x. due x \<le> t) (timers s) = x # xs \<Longrightarrow>
     run_timers t s =
       run_timers t (fire (earliest x xs)
         (s\<lparr>timers := remove1 (earliest x xs) (timers s),
            clock := max (clock s) (due (earliest x xs))\<rparr>))"
  by (subst run_timers.simps) (simp add: Let_def)

lemma debounce_inv_fire:
  assumes inv: "debounce_inv s"
      and y: "y \<in> set (timers s)" "due y \<le> t"
      and least: "\<And>z. z \<in> set (timers s) \<Longrightarrow> due z \<le> t \<Longrightarrow> due y \<le> due z"
  shows "debounce_inv (fire y (s\<lparr>timers := remove1 y (timers s), clock := max (clock s) (due y)\<rparr>))"
proof -
  from inv have dk: "distinct (map fst (debounceTimers s))"
    and dh: "distinct (map handle (timers s))"
    and dt: "distinct (map target (timers s))"
    and e: "set (debounceTimers s) = (\<lambda>x. (target x, handle x)) ` set (timers s)"
    and b: "list_all (\<lambda>x. handle x < next_handle s \<and> clock s \<le> due x) (timers s)"
    by (simp_all add: debounce_inv_def)
  have d: "distinct (timers s)" using dh by (simp add: distinct_map)
  have rest: "set (remove1 y (timers s)) = {x \<in> set (timers s). target x \<noteq> target y}"
  proof -
    have "target x = target y \<longleftrightarrow> x = y" if "x \<in> set (timers s)" for x
      using dt y(1) that by (auto simp: distinct_map dest: inj_onD)
    then show ?thesis using d by auto
  qed
  have 1: "distinct (map fst (AList.delete (target y) (debounceTimers s)))"
    using dk by (simp add: distinct_delete)
  have 2: "distinct (map handle (remove1 y (timers s)))"
    using dh by (simp add: distinct_map inj_on_def)
  have 3: "distinct (map target (remove1 y (timers s)))"
    using dt by (simp add: distinct_map inj_on_def)
  have 4: "set (AList.delete (target y) (debounceTimers s)) =
             (\<lambda>x. (target x, handle x)) ` set (remove1 y (timers s))"
    using e by (auto simp: set_alist_delete rest)
  have 5: "list_all (\<lambda>x. handle x < next_handle s \<and> max (clock s) (due y) \<le> due x)
             (remove1 y (timers s))"
  proof -
    have "max (clock s) (due y) \<le> due x" if "x \<in> set (timers s)" for x
    proof (cases "due x \<le> t")
      case True
      with least [OF that] b that show ?thesis by (simp add: list_all_iff)
    next
      case False
      with y(2) b that show ?thesis by (simp add: list_all_iff)
    qed
    with b show ?thesis by (auto simp: list_all_iff dest: notin_set_remove1)
  qed
  from 1 2 3 4 5 show ?thesis by (simp add: debounce_inv_def)
qed

lemma debounce_inv_run_timers: "debounce_inv s \<Longrightarrow> debounce_inv (run_timers t s)"
proof (induction t s rule: run_timers.induct)
  case (1 t s)
  show ?case
  proof (cases "exit_code s = None")
    case False
    with "1.prems" show ?thesis by (simp add: run_timers_exited)
  next
    case alive: True
    show ?thesis
    proof (cases "filter (\<lambda>x. due x \<le> t) (timers s)")
      case Nil
      then have "\<forall>x \<in> set (timers s). t < due x"
        by (auto simp: filter_empty_conv)
      with "1.prems" have "debounce_inv (s\<lparr>clock := max (clock s) t\<rparr>)"
        by (auto simp: debounce_inv_def list_all_iff)
      with alive Nil show ?thesis by (simp add: run_timers_idle)
    next
      case (Cons x xs)
      let ?y = "earliest x xs"
      let ?s = "fire ?y (s\<lparr>timers := remove1 ?y (timers s), clock := max (clock s) (due ?y)\<rparr>)"
      have "debounce_inv ?s"
        using "1.prems" earliest_due [OF Cons] by (rule debounce_inv_fire)
      then have "debounce_inv (run_timers t ?s)"
        using alive Cons by (intro "1.IH") simp_all
      with alive Cons show ?thesis by (simp add: run_timers_due)
    qed
  qed
qed

lemma run_timers_alive [simp]: "exit_code (run_timers t s) = exit_code s"
proof (induction t s rule: run_timers.induct)
  case (1 t s)
  show ?case
  proof (cases "exit_code s = None")
    case False
    then show ?thesis by (simp add: run_timers_exited)
  next
    case alive: True
    show ?thesis
    proof (cases "filter (\<lambda>x. due x \<le> t) (timers s)")
      case Nil
      with alive show ?thesis by (simp add: run_timers_idle)
    next
      case (Cons x xs)
      let ?y = "earliest x xs"
      let ?s = "fire ?y (s\<lparr>timers := remove1 ?y (timers s), clock := max (clock s) (due ?y)\<rparr>)"
      have "exit_code (run_timers t ?s) = exit_code ?s"
        using alive Cons by (intro "1.IH") simp_all
      with alive Cons show ?thesis by (simp add: run_timers_due)
    qed
  qed
qed

lemma run_timers_clock: "exit_code s = None \<Longrightarrow> clock (run_timers t s) = max (clock s) t"
proof (induction t s rule: run_timers.induct)
  case (1 t s)
  show ?case
  proof (cases "filter (\<lambda>x. due x \<le> t) (timers s)")
    case Nil
    with "1.prems" show ?thesis by (simp add: run_timers_idle)
  next
    case (Cons x xs)
    let ?y = "earliest x xs"
    let ?s = "fire ?y (s\<lparr>timers := remove1 ?y (timers s), clock := max (clock s) (due ?y)\<rparr>)"
    have "clock (run_timers t ?s) = max (clock ?s) t"
      using "1.prems" Cons by (intro "1.IH") simp_all
    moreover have "due ?y \<le> t" using earliest_due(2) [OF Cons] .
    ultimately show ?thesis using "1.prems" Cons by (simp add: run_timers_due)
  qed
qed

lemma pending_handleFileChange:
  assumes "debounce_inv s"
  shows "pending p (handleFileChange cfg p s) =
           [\<lparr>handle = next_handle s, due = clock s + timeout_delay (debounceMs cfg), target = p\<rparr>]"
  using handleFileChange_timers [OF assms, of cfg p] by (simp add: pending_def)

lemma triggers_handleFileChange [simp]:
  "triggers p (handleFileChange cfg q s) = triggers p s"
  by (simp add: triggers_def)

lemma run_timers_not_due:
  assumes "\<And>x. x \<in> set (pending p s) \<Longrightarrow> t < due x"
  shows "pending p (run_timers t s) = pending p s \<and> triggers p (run_timers t s) = triggers p s"
  using assms
proof (induction t s rule: run_timers.induct)
  case (1 t s)
  show ?case
  proof (cases "exit_code s = None")
    case False
    then show ?thesis by (simp add: run_timers_exited)
  next
    case alive: True
    show ?thesis
    proof (cases "filter (\<lambda>x. due x \<le> t) (timers s)")
      case Nil
      with alive show ?thesis by (simp add: run_timers_idle pending_def triggers_def)
    next
      case (Cons x xs)
      let ?y = "earliest x xs"
      let ?s = "fire ?y (s\<lparr>timers := remove1 ?y (timers s), clock := max (clock s) (due ?y)\<rparr>)"
      have y: "?y \<in> set (timers s)" "due ?y \<le> t"
        using earliest_due(1,2) [OF Cons] by simp_all
      have other: "target ?y \<noteq> p"
      proof
        assume "target ?y = p"
        with y(1) have "?y \<in> set (pending p s)" by (simp add: pending_def)
        from "1.prems" [OF this] y(2) show False by simp
      qed
      then have "filter (\<lambda>x. target x = p) (remove1 ?y (timers s)) = filter (\<lambda>x. target x = p) (timers s)"
        by (simp add: filter_remove1 remove1_idem)
      then have same: "pending p ?s = pending p s" "triggers p ?s = triggers p s"
        using other by (simp_all add: pending_def triggers_def)
      have "pending p (run_timers t ?s) = pending p ?s \<and> triggers p (run_timers t ?s) = triggers p ?s"
        using alive Cons same "1.prems" by (intro "1.IH") simp_all
      with same alive Cons show ?thesis by (simp add: run_timers_due)
    qed
  qed
qed

lemma run_timers_fires:
  assumes "debounce_inv s" "exit_code s = None" "pending p s = [x]" "due x \<le> t"
  shows "pending p (run_timers t s) = [] \<and> triggers p (run_timers t s) = triggers p s @ [due x]"
  using assms
proof (induction t s rule: run_timers.induct)
  case (1 t s)
  note inv = "1.prems"(1) and alive = "1.prems"(2) and px = "1.prems"(3) and dx = "1.prems"(4)
  have "x \<in> set (filter (\<lambda>x. target x = p) (timers s))"
    using px by (simp add: pending_def)
  then have x: "x \<in> set (timers s)" "target x = p" by simp_all
  show ?case
  proof (cases "filter (\<lambda>x. due x \<le> t) (timers s)")
    case Nil
    with x(1) dx show ?thesis by (auto simp: filter_empty_conv)
  next
    case (Cons z zs)
    let ?y = "earliest z zs"
    let ?s = "fire ?y (s\<lparr>timers := remove1 ?y (timers s), clock := max (clock s) (due ?y)\<rparr>)"
    have y: "?y \<in> set (timers s)" "due ?y \<le> t"
      using earliest_due(1,2) [OF Cons] by simp_all
    have inv': "debounce_inv ?s"
      using inv earliest_due [OF Cons] by (rule debounce_inv_fire)
    have unfold: "run_timers t s = run_timers t ?s"
      using alive Cons by (rule run_timers_due)
    from inv have dt: "distinct (map target (timers s))"
      and b: "list_all (\<lambda>x. handle x < next_handle s \<and> clock s \<le> due x) (timers s)"
      by (simp_all add: debounce_inv_def)
    show ?thesis
    proof (cases "?y = x")
      case True
      have "clock s \<le> due x" using b x(1) by (simp add: list_all_iff)
      then have at: "max (clock s) (due x) = due x" by simp
      have "filter (\<lambda>u. target u = p) (remove1 x (timers s)) = remove1 x [x]"
        using px by (simp add: filter_remove1 pending_def)
      then have gone: "pending p ?s = []"
        using True by (simp add: pending_def)
      have fired: "triggers p ?s = triggers p s @ [due x]"
        using True x(2) at by (simp add: triggers_def)
      have "pending p (run_timers t ?s) = pending p ?s \<and> triggers p (run_timers t ?s) = triggers p ?s"
        by (rule run_timers_not_due) (simp add: gone)
      with gone fired unfold show ?thesis by simp
    next
      case False
      have other: "target ?y \<noteq> p"
      proof
        assume "target ?y = p"
        with y(1) have "?y \<in> set (pending p s)" by (simp add: pending_def)
        with px False show False by simp
      qed
      then have "filter (\<lambda>x. target x = p) (remove1 ?y (timers s)) = filter (\<lambda>x. target x = p) (timers s)"
        by (simp add: filter_remove1 remove1_idem)
      then have same: "pending p ?s = pending p s" "triggers p ?s = triggers p s"
        using other by (simp_all add: pending_def triggers_def)
      have "pending p (run_timers t ?s) = [] \<and> triggers p (run_timers t ?s) = triggers p ?s @ [due x]"
        using alive Cons inv' same px dx by (intro "1.IH") simp_all
      with same unfold show ?thesis by simp
    qed
  qed
qed

lemma debounce_inv_step: "debounce_inv s \<Longrightarrow> debounce_inv (step cfg e s)"
  by (cases e)
     (simp_all add: step.simps debounce_inv_handleFileChange debounce_inv_run_timers,
      simp_all add: debounce_inv_def upload_settled_def stream_error_def sigint_def)

lemma debounce_inv_play: "debounce_inv s \<Longrightarrow> debounce_inv (play cfg es s)"
  unfolding play_def
  by (induction es arbitrary: s) (simp_all add: debounce_inv_step)

lemma debounce_inv_boot: "debounce_inv (boot t)"
  by (simp add: debounce_inv_def boot_def)

lemma play_exited: "exit_code s \<noteq> None \<Longrightarrow> play cfg es s = s"
  unfolding play_def by (induction es) (simp_all add: step.simps)

lemmas proc_defs = step.simps stream_error_def boot_def handleFileChange_def setTimeout_def clearTimeout_def fire_def
  start_upload_def sigint_def basename_def cfg0_def Let_def

lemma busy_eq:
  "busy = \<lparr>clock = 1000, timers = [\<lparr>handle = 1, due = 2000, target = ''/w/a.bar''\<rparr>],
     next_handle = 2, debounceTimers = [(''/w/a.bar'', 1)], uploads = [(1000, ''/w/a.bar'')],
     running = [''/w/a.bar''], watcher_closed = False, exit_code = None,
     notices = [ChangeDetected ''a.bar'' (Num 1000), ChangeDetected ''a.bar'' (Num 1000)]\<rparr>"
proof -
  have "run_timers 1000 (handleFileChange cfg0 ''/w/a.bar'' (boot 0)) =
      \<lparr>clock = 1000, timers = [], next_handle = 1, debounceTimers = [],
        uploads = [(1000, ''/w/a.bar'')], running = [''/w/a.bar''], watcher_closed = False,
        exit_code = None, notices = [ChangeDetected ''a.bar'' (Num 1000)]\<rparr>"
    apply (subst run_timers.simps, simp add: proc_defs)
    apply (subst run_timers.simps, simp add: proc_defs)
    done
  then show ?thesis by (simp add: busy_def play_def proc_defs)
qed

lemma interrupted_eq:
  "interrupted = \<lparr>clock = 500, timers = [\<lparr>handle = 0, due = 1000, target = ''/w/a.bar''\<rparr>],
     next_handle = 1, debounceTimers = [(''/w/a.bar'', 0)], uploads = [],
     running = [], watcher_closed = True, exit_code = Some 0,
     notices = [ChangeDetected ''a.bar'' (Num 1000), ShuttingDown]\<rparr>"
proof -
  have "run_timers 500 (handleFileChange cfg0 ''/w/a.bar'' (boot 0)) =
      \<lparr>clock = 500, timers = [\<lparr>handle = 0, due = 1000, target = ''/w/a.bar''\<rparr>],
        next_handle = 1, debounceTimers = [(''/w/a.bar'', 0)], uploads = [], running = [],
        watcher_closed = False, exit_code = None, notices = [ChangeDetected ''a.bar'' (Num 1000)]\<rparr>"
    by (subst run_timers.simps) (simp add: proc_defs)
  then show ?thesis by (simp add: interrupted_def play_def proc_defs)
qed

lemma timeout_delay_pos: "1 \<le> timeout_delay d"
  by (cases d) auto

lemma pending_handleFileChange_other:
  assumes "debounce_inv s" "q \<noteq> p"
  shows "pending p (handleFileChange cfg q s) = pending p s"
proof -
  have "filter (\<lambda>x. target x = p) (filter (\<lambda>x. target x \<noteq> q) (timers s)) =
        filter (\<lambda>x. target x = p) (timers s)"
    using assms(2) by (auto intro: filter_cong)
  then show ?thesis
    using handleFileChange_timers [OF assms(1), of cfg q] assms(2) by (simp add: pending_def)
qed

lemma play_Cons: "play cfg (e # es) s = play cfg es (step cfg e s)"
  by (simp add: play_def)

lemma play_append: "play cfg (es @ fs) s = play cfg fs (play cfg es s)"
  by (simp add: play_def)

lemma play_alive: "exit_code (play cfg es s) = None \<Longrightarrow> exit_code s = None"
  using play_exited [of s cfg es] by (cases "exit_code s") auto

text \<open>One event, for a process that lives through it.\<close>

lemma step_clock:
  assumes "exit_code s = None" "exit_code (step cfg e s) = None"
  shows "clock (step cfg e s) = (case e of AdvanceTo t \<Rightarrow> max (clock s) t | _ \<Rightarrow> clock s)"
  using assms
  by (cases e) (simp_all add: step.simps run_timers_clock upload_settled_def stream_error_def
      sigint_def split: if_splits)

lemma owes_same:
  "pending p s' = pending p s \<Longrightarrow> triggers p s' = triggers p s \<Longrightarrow> clock s' = clock s \<Longrightarrow>
     owes d p tr l s' = owes d p tr l s"
  by (simp add: owes_def split: option.splits)

lemma owes_step:
  assumes inv: "debounce_inv s"
      and alive: "exit_code s = None" "exit_code (step cfg e s) = None"
      and owes: "owes d p tr l s"
      and d: "d = timeout_delay (debounceMs cfg)"
      and gap: "e = FileChange p \<Longrightarrow> (case l of None \<Rightarrow> True | Some u \<Rightarrow> clock s < u + d)"
  shows "owes d p tr (if e = FileChange p then Some (clock s) else l) (step cfg e s)"
proof (cases e)
  case (FileChange q)
  show ?thesis
  proof (cases "q = p")
    case True
    have pos: "clock s < clock s + d" using timeout_delay_pos [of "debounceMs cfg"] d by simp
    have tr: "triggers p s = tr"
      using owes gap FileChange True by (auto simp: owes_def split: option.splits if_splits)
    have "map due (pending p (handleFileChange cfg p s)) = [clock s + d]"
      using pending_handleFileChange [OF inv, of p cfg] d by simp
    with pos tr FileChange True alive show ?thesis
      by (simp add: owes_def step.simps)
  next
    case False
    have "owes d p tr l (handleFileChange cfg q s) = owes d p tr l s"
      using False by (intro owes_same) (simp_all add: pending_handleFileChange_other [OF inv])
    with FileChange False alive owes show ?thesis by (simp add: step.simps)
  qed
next
  case (AdvanceTo t)
  have step: "step cfg e s = run_timers t s" using AdvanceTo alive by (simp add: step.simps)
  have clock: "clock (run_timers t s) = max (clock s) t" using alive(1) by (rule run_timers_clock)
  show ?thesis
  proof (cases l)
    case None
    then have "pending p s = []" "triggers p s = tr" using owes by (simp_all add: owes_def)
    moreover have "pending p (run_timers t s) = pending p s \<and> triggers p (run_timers t s) = triggers p s"
      by (rule run_timers_not_due) (simp add: \<open>pending p s = []\<close>)
    ultimately show ?thesis using None AdvanceTo step by (simp add: owes_def)
  next
    case (Some u)
    with owes have u: "u \<le> clock s" by (simp add: owes_def)
    show ?thesis
    proof (cases "clock s < u + d")
      case armed: True
      with owes Some have p: "map due (pending p s) = [u + d]" and tr: "triggers p s = tr"
        by (simp_all add: owes_def)
      from p obtain x where x: "pending p s = [x]" "due x = u + d"
        by (cases "pending p s") auto
      show ?thesis
      proof (cases "t < u + d")
        case True
        have "pending p (run_timers t s) = pending p s \<and> triggers p (run_timers t s) = triggers p s"
          by (rule run_timers_not_due) (simp add: x True)
        with p tr True armed u clock Some AdvanceTo step show ?thesis
          by (simp add: owes_def)
      next
        case False
        then have "due x \<le> t" using x(2) by simp
        with inv alive(1) x(1)
        have "pending p (run_timers t s) = [] \<and> triggers p (run_timers t s) = triggers p s @ [due x]"
          by (rule run_timers_fires)
        with x(2) tr False u clock Some AdvanceTo step show ?thesis
          by (simp add: owes_def)
      qed
    next
      case fired: False
      with owes Some have p: "pending p s = []" and tr: "triggers p s = tr @ [u + d]"
        by (simp_all add: owes_def)
      have "pending p (run_timers t s) = pending p s \<and> triggers p (run_timers t s) = triggers p s"
        by (rule run_timers_not_due) (simp add: p)
      with p tr fired u clock Some AdvanceTo step show ?thesis
        by (simp add: owes_def)
    qed
  qed
next
  case (UploadSettled q)
  have "owes d p tr l (upload_settled q s) = owes d p tr l s"
    by (intro owes_same) (simp_all add: upload_settled_def pending_def triggers_def)
  with UploadSettled alive owes show ?thesis by (simp add: step.simps)
next
  case (StreamError q)
  have "stream_error q s = s"
    using alive StreamError by (simp add: step.simps stream_error_def split: if_splits)
  with StreamError alive owes show ?thesis by (simp add: step.simps)
next
  case Sigint
  with alive show ?thesis by (simp add: step.simps sigint_def)
qed

text \<open>A list of events, for a process that lives through them.\<close>

lemma owes_play:
  assumes d: "d = timeout_delay (debounceMs cfg)"
  shows "debounce_inv s \<Longrightarrow> exit_code (play cfg es s) = None \<Longrightarrow> owes d p tr l s \<Longrightarrow>
     gaps_below d (case l of None \<Rightarrow> change_times p (clock s) es
                   | Some u \<Rightarrow> u # change_times p (clock s) es) \<Longrightarrow>
     owes d p tr (case change_times p (clock s) es of [] \<Rightarrow> l | t # ts \<Rightarrow> Some (last (t # ts)))
       (play cfg es s)"
proof (induction es arbitrary: s l)
  case Nil
  then show ?case by (simp add: play_def)
next
  case (Cons e es)
  let ?s = "step cfg e s"
  let ?l = "if e = FileChange p then Some (clock s) else l"
  have alive': "exit_code ?s = None"
    using Cons.prems(2) by (simp add: play_Cons play_alive)
  then have alive: "exit_code s = None"
    using play_alive [of cfg "[e]" s] by (simp add: play_def)
  have inv': "debounce_inv ?s" using Cons.prems(1) by (rule debounce_inv_step)
  have clock: "clock ?s = (case e of AdvanceTo t \<Rightarrow> max (clock s) t | _ \<Rightarrow> clock s)"
    using alive alive' by (rule step_clock)
  have gap: "case l of None \<Rightarrow> True | Some u \<Rightarrow> clock s < u + d" if "e = FileChange p"
    using Cons.prems(4) that by (simp split: option.splits)
  have owes': "owes d p tr ?l ?s"
    using Cons.prems(1) alive alive' Cons.prems(3) d gap by (rule owes_step)
  have times: "change_times p (clock s) (e # es) =
      (if e = FileChange p then clock s # change_times p (clock ?s) es
       else change_times p (clock ?s) es)"
    using clock by (cases e) auto
  have gaps': "gaps_below d (case ?l of None \<Rightarrow> change_times p (clock ?s) es
                              | Some u \<Rightarrow> u # change_times p (clock ?s) es)"
    using Cons.prems(4) times by (auto split: option.splits)
  have "owes d p tr (case change_times p (clock ?s) es of [] \<Rightarrow> ?l | t # ts \<Rightarrow> Some (last (t # ts)))
          (play cfg es ?s)"
    using inv' _ owes' gaps' by (rule Cons.IH) (use Cons.prems(2) in \<open>simp add: play_Cons\<close>)
  moreover have "(case change_times p (clock s) (e # es) of [] \<Rightarrow> l | t # ts \<Rightarrow> Some (last (t # ts))) =
      (case change_times p (clock ?s) es of [] \<Rightarrow> ?l | t # ts \<Rightarrow> Some (last (t # ts)))"
    using times by (auto split: list.splits)
  ultimately show ?case by (simp only: play_Cons)
qed


lemma play_harmless:
  assumes "exit_code s = None"
      and "\<forall>e \<in> set es. e \<noteq> Sigint \<and> (\<forall>q. e \<noteq> StreamError q)"
  shows "exit_code (play cfg es s) = None"
  using assms unfolding play_def
proof (induction es arbitrary: s)
  case Nil
  then show ?case by simp
next
  case (Cons e es)
  have "exit_code (step cfg e s) = None"
    using Cons.prems by (cases e) (simp_all add: step.simps upload_settled_def)
  with Cons show ?case by simp
qed

lemma waiting_eq:
  "waiting = \<lparr>clock = 0, timers = [\<lparr>handle = 0, due = 1000, target = ''/w/b.bar''\<rparr>],
      next_handle = 1, debounceTimers = [(''/w/b.bar'', 0)], uploads = [], running = [],
      watcher_closed = False, exit_code = None, notices = [ChangeDetected ''b.bar'' (Num 1000)]\<rparr>"
  by (simp add: waiting_def play_def proc_defs)

lemma overflowed_eq:
  "overflowed = \<lparr>clock = 3000000000, timers = [], next_handle = 2, debounceTimers = [],
     uploads = [(1, ''/w/a.bar''), (51, ''/w/a.bar'')], running = [''/w/a.bar'', ''/w/a.bar''],
     watcher_closed = False, exit_code = None,
     notices = [ChangeDetected ''a.bar'' (Num 2147483648), ChangeDetected ''a.bar'' (Num 2147483648)]\<rparr>"
proof -
  let ?s1 = "handleFileChange cfg_overflow ''/w/a.bar'' (boot 0)"
  have 1: "?s1 = \<lparr>clock = 0, timers = [\<lparr>handle = 0, due = 1, target = ''/w/a.bar''\<rparr>],
      next_handle = 1, debounceTimers = [(''/w/a.bar'', 0)], uploads = [], running = [],
      watcher_closed = False, exit_code = None,
      notices = [ChangeDetected ''a.bar'' (Num 2147483648)]\<rparr>"
    by (simp add: cfg_overflow_def proc_defs)
  let ?s2 = "run_timers 50 ?s1"
  have 2: "?s2 = \<lparr>clock = 50, timers = [], next_handle = 1, debounceTimers = [],
      uploads = [(1, ''/w/a.bar'')], running = [''/w/a.bar''],
      watcher_closed = False, exit_code = None,
      notices = [ChangeDetected ''a.bar'' (Num 2147483648)]\<rparr>"
    unfolding 1
    apply (subst run_timers.simps, simp add: proc_defs)
    apply (subst run_timers.simps, simp add: proc_defs)
    done
  let ?s3 = "handleFileChange cfg_overflow ''/w/a.bar'' ?s2"
  have 3: "?s3 = \<lparr>clock = 50, timers = [\<lparr>handle = 1, due = 51, target = ''/w/a.bar''\<rparr>],
      next_handle = 2, debounceTimers = [(''/w/a.bar'', 1)],
      uploads = [(1, ''/w/a.bar'')], running = [''/w/a.bar''],
      watcher_closed = False, exit_code = None,
      notices = [ChangeDetected ''a.bar'' (Num 2147483648), ChangeDetected ''a.bar'' (Num 2147483648)]\<rparr>"
    unfolding 2 by (simp add: cfg_overflow_def proc_defs)
  have 4: "run_timers 3000000000 ?s3 = \<lparr>clock = 3000000000, timers = [], next_handle = 2,
      debounceTimers = [], uploads = [(1, ''/w/a.bar''), (51, ''/w/a.bar'')],
      running = [''/w/a.bar'', ''/w/a.bar''], watcher_closed = False, exit_code = None,
      notices = [ChangeDetected ''a.bar'' (Num 2147483648), ChangeDetected ''a.bar'' (Num 2147483648)]\<rparr>"
    unfolding 3
    apply (subst run_timers.simps, simp add: proc_defs)
    apply (subst run_timers.simps, simp add: proc_defs)
    done
  have "overflowed = run_timers 3000000000 ?s3"
    by (simp add: overflowed_def play_def step.simps 1 2 3 boot_def)
  with 4 show ?thesis by simp
qed


section \<open>The claims about the debouncer and the shutdown\<close>

text \<open>
  C5, as it is stated, fails for a delay that the timer does not take. With
  \<^verbatim>\<open>debounceMs\<close> at 2147483648 the timers are armed for 1 ms: of two changes to a file,
  50 ms apart, each starts an upload of its own, at 1 ms and at 51 ms.
\<close>

theorem timer_overflow_counterexample:
  "debounceMs cfg_overflow = Num 2147483648 \<and>
   change_times ''/w/a.bar'' 0
     [FileChange ''/w/a.bar'', AdvanceTo 50, FileChange ''/w/a.bar'', AdvanceTo 3000000000] = [0, 50] \<and>
   gaps_below 2147483648 [0, 50] \<and>
   exit_code overflowed = None \<and>
   triggers ''/w/a.bar'' overflowed = [1, 51]"
  by (simp add: overflowed_eq triggers_def cfg_overflow_def)


text \<open>
  C5, amended. A process, in any state it can have come to, has no timer armed for the
  path \<open>p\<close>. Events follow, of any kind and for any path, in which \<open>p\<close> changes at
  least once and each change of \<open>p\<close> comes less than the delay of the timer after the
  one before; the delay is \<^verbatim>\<open>debounceMs\<close> when that is between 1 and 2147483647, and
  1 ms otherwise. If the process is still running when the clock has passed the last
  change by the delay, the upload of \<open>p\<close> has been started exactly once more than
  before, at the last change plus the delay, and no timer is left for \<open>p\<close>. At every
  point a call for \<open>p\<close> leaves exactly one timer armed for \<open>p\<close>, its own: it has
  cleared the one before.
\<close>

theorem debounce_coalescing:
  assumes "s = play cfg es0 (boot t0)"
      and "pending p s = []"
      and "ts = change_times p (clock s) es" and "ts \<noteq> []"
      and "gaps_below (timeout_delay (debounceMs cfg)) ts"
      and "last ts + timeout_delay (debounceMs cfg) \<le> T"
      and "exit_code (play cfg (es @ [AdvanceTo T]) s) = None"
  shows "triggers p (play cfg (es @ [AdvanceTo T]) s) =
           triggers p s @ [last ts + timeout_delay (debounceMs cfg)] \<and>
         pending p (play cfg (es @ [AdvanceTo T]) s) = [] \<and>
         pending p (handleFileChange cfg p (play cfg es1 s)) =
           [\<lparr>handle = next_handle (play cfg es1 s),
             due = clock (play cfg es1 s) + timeout_delay (debounceMs cfg), target = p\<rparr>]"
proof -
  let ?d = "timeout_delay (debounceMs cfg)"
  let ?es = "es @ [AdvanceTo T]"
  have inv: "debounce_inv s"
    unfolding assms(1) using debounce_inv_boot by (rule debounce_inv_play)
  have times: "change_times p (clock s) ?es = ts"
  proof -
    have "change_times p c (es @ [AdvanceTo T]) = change_times p c es" for c
      by (induction p c es rule: change_times.induct) simp_all
    with assms(3) show ?thesis by simp
  qed
  have start: "owes ?d p (triggers p s) None s"
    using assms(2) by (simp add: owes_def)
  have gaps: "gaps_below ?d (case None of None \<Rightarrow> change_times p (clock s) ?es
                              | Some u \<Rightarrow> u # change_times p (clock s) ?es)"
    using assms(5) times by simp
  have "owes ?d p (triggers p s)
          (case change_times p (clock s) ?es of [] \<Rightarrow> None | t # ts \<Rightarrow> Some (last (t # ts)))
          (play cfg ?es s)"
    using refl inv assms(7) start gaps by (rule owes_play)
  then have fin: "owes ?d p (triggers p s) (Some (last ts)) (play cfg ?es s)"
    using times assms(4) by (cases ts) simp_all
  have "exit_code (play cfg es s) = None"
    using assms(7) by (simp add: play_append play_alive)
  then have "clock (play cfg ?es s) = max (clock (play cfg es s)) T"
    by (simp add: play_append play_def step.simps run_timers_clock)
  with assms(6) have late: "\<not> clock (play cfg ?es s) < last ts + ?d" by simp
  have "debounce_inv (play cfg es1 s)" using inv by (rule debounce_inv_play)
  then have "pending p (handleFileChange cfg p (play cfg es1 s)) =
      [\<lparr>handle = next_handle (play cfg es1 s),
        due = clock (play cfg es1 s) + ?d, target = p\<rparr>]"
    by (rule pending_handleFileChange)
  with fin late show ?thesis by (simp add: owes_def)
qed

text \<open>
  Changes to one file at 0, 400 and 900 ms with a delay of 1000 ms, while the timer of
  another file is armed and runs at 1000 ms: one upload of the file, at 1900 ms.
\<close>

theorem debounce_coalescing_witness:
  "pending ''/w/a.bar'' waiting = [] \<and>
   change_times ''/w/a.bar'' (clock waiting) three_changes = [0, 400, 900] \<and>
   gaps_below (timeout_delay (debounceMs cfg0)) [0, 400, 900] \<and>
   exit_code (play cfg0 (three_changes @ [AdvanceTo 5000]) waiting) = None \<and>
   triggers ''/w/a.bar'' (play cfg0 (three_changes @ [AdvanceTo 5000]) waiting) = [1900] \<and>
   pending ''/w/a.bar'' (play cfg0 (three_changes @ [AdvanceTo 5000]) waiting) = [] \<and>
   pending ''/w/a.bar'' (handleFileChange cfg0 ''/w/a.bar'' waiting) =
     [\<lparr>handle = 1, due = 1000, target = ''/w/a.bar''\<rparr>]"
proof -
  have b: "pending ''/w/a.bar'' waiting = []" by (simp add: waiting_eq pending_def)
  have c: "change_times ''/w/a.bar'' (clock waiting) three_changes = [0, 400, 900]"
    by (simp add: waiting_eq three_changes_def)
  have d: "[0, 400, 900] \<noteq> ([] :: nat list)" by simp
  have e: "gaps_below (timeout_delay (debounceMs cfg0)) [0, 400, 900]" by (simp add: cfg0_def)
  have f: "last [0, 400, 900] + timeout_delay (debounceMs cfg0) \<le> 5000" by (simp add: cfg0_def)
  have g: "exit_code (play cfg0 (three_changes @ [AdvanceTo 5000]) waiting) = None"
    by (rule play_harmless) (simp_all add: waiting_eq three_changes_def)
  have h: "triggers ''/w/a.bar'' waiting = []" by (simp add: waiting_eq triggers_def)
  have i: "play cfg0 [] waiting = waiting" by (simp add: play_def)
  have j: "next_handle waiting = 1" "clock waiting = 0" by (simp_all add: waiting_eq)
  have k: "timeout_delay (debounceMs cfg0) = 1000" by (simp add: cfg0_def)
  from debounce_coalescing [OF waiting_def b c [symmetric] d e f g, of "[]"]
  show ?thesis unfolding h i j k using b c [unfolded j] e [unfolded k] g by simp
qed

text \<open>
  C6, as it is stated, fails: the handler of the signal clears no timer. A change at
  time 0 and the signal at 500 ms leave the timer armed and its entry in the map when
  the process exits.
\<close>

theorem timers_survive_sigint_counterexample:
  "exit_code interrupted = Some 0 \<and>
   timers interrupted = [\<lparr>handle = 0, due = 1000, target = ''/w/a.bar''\<rparr>] \<and>
   debounceTimers interrupted = [(''/w/a.bar'', 0)]"
  by (simp add: interrupted_eq)

text \<open>
  C6, amended. On \<^verbatim>\<open>SIGINT\<close> the process closes the watcher and exits with status 0. It
  leaves the armed timers and the map as they are; no callback runs afterwards, because
  the process has exited.
\<close>

theorem sigint_shutdown:
  "watcher_closed (sigint s) \<and> exit_code (sigint s) = Some 0 \<and>
   timers (sigint s) = timers s \<and> debounceTimers (sigint s) = debounceTimers s \<and>
   uploads (sigint s) = uploads s \<and> run_timers t (sigint s) = sigint s \<and>
   play cfg es (sigint s) = sigint s"
proof -
  have "exit_code (sigint s) \<noteq> None" by (simp add: sigint_def)
  then have "run_timers t (sigint s) = sigint s" "play cfg es (sigint s) = sigint s"
    by (simp_all add: run_timers_exited play_exited)
  then show ?thesis by (simp add: sigint_def)
qed

text \<open>
  C10, as it is stated, fails in its last part: while the upload of a path runs, a new
  change to that path puts an entry for it into the map again.
\<close>

theorem entry_during_upload_counterexample:
  "''/w/a.bar'' \<in> set (running busy) \<and> map_of (debounceTimers busy) ''/w/a.bar'' = Some 1"
  by (simp add: busy_eq)

text \<open>
  C10, amended. In every state of the process the map holds at most one entry per path
  and its entries are the armed timers, one per path at most. A change to a path leaves
  exactly one timer armed for it, the new one, whose handle the map holds. The callback
  of a timer removes the entry of its path and starts the upload, so the path has no
  entry at the moment its upload starts.
\<close>

theorem one_entry_per_path:
  assumes "s = play cfg es (boot t0)"
  shows "debounce_inv s \<and>
         pending p (handleFileChange cfg p s) =
           [\<lparr>handle = next_handle s, due = clock s + timeout_delay (debounceMs cfg), target = p\<rparr>] \<and>
         map_of (debounceTimers (handleFileChange cfg p s)) p = Some (next_handle s) \<and>
         map_of (debounceTimers (fire x s)) (target x) = None \<and>
         last (running (fire x s)) = target x"
proof -
  have inv: "debounce_inv s"
    unfolding assms using debounce_inv_boot by (rule debounce_inv_play)
  then have "pending p (handleFileChange cfg p s) =
      [\<lparr>handle = next_handle s, due = clock s + timeout_delay (debounceMs cfg), target = p\<rparr>]"
    by (rule pending_handleFileChange)
  moreover have "map_of (debounceTimers (handleFileChange cfg p s)) p = Some (next_handle s)"
    by (simp add: update_conv')
  moreover have "map_of (debounceTimers (fire x s)) (target x) = None"
    by (simp add: delete_conv')
  ultimately show ?thesis using inv by simp
qed


theorem one_entry_per_path_witness:
  "debounce_inv busy \<and>
   pending ''/w/a.bar'' (handleFileChange cfg0 ''/w/a.bar'' busy) =
     [\<lparr>handle = 2, due = 2000, target = ''/w/a.bar''\<rparr>] \<and>
   map_of (debounceTimers (handleFileChange cfg0 ''/w/a.bar'' busy)) ''/w/a.bar'' = Some 2 \<and>
   map_of (debounceTimers (fire \<lparr>handle = 1, due = 2000, target = ''/w/a.bar''\<rparr> busy)) ''/w/a.bar'' = None \<and>
   last (running (fire \<lparr>handle = 1, due = 2000, target = ''/w/a.bar''\<rparr> busy)) = ''/w/a.bar''"
  using one_entry_per_path [OF busy_def, of "''/w/a.bar''" "\<lparr>handle = 1, due = 2000, target = ''/w/a.bar''\<rparr>"]
  by (simp add: busy_eq cfg0_def)

end
